theory Spec2Isabelle
  imports Main "HOL-Library.AList"
begin

section \<open>JavaScript values and plain objects\<close>

text \<open>
  The content script handles booleans, strings, numbers, \<open>undefined\<close> and \<open>null\<close>.
  Plain objects (the storage result, an incoming message) are association lists from
  property names to values; reading a missing property gives \<open>undefined\<close>.
\<close>

datatype jsval = Undefined | Null | JBool bool | JNum int | JStr string

fun truthy :: "jsval \<Rightarrow> bool" where
  "truthy Undefined = False"
| "truthy Null = False"
| "truthy (JBool b) = b"
| "truthy (JNum n) = (n \<noteq> 0)"
| "truthy (JStr s) = (s \<noteq> [])"

type_synonym jsobj = "(string \<times> jsval) list"

definition getProp :: "jsobj \<Rightarrow> string \<Rightarrow> jsval" where
  "getProp obj k = (case map_of obj k of None \<Rightarrow> Undefined | Some v \<Rightarrow> v)"

text \<open>\<open>result.key === undefined ? true : result.key\<close>, the default used at every read.\<close>

definition prefOrDefault :: "jsobj \<Rightarrow> string \<Rightarrow> jsval" where
  "prefOrDefault result k = (if getProp result k = Undefined then JBool True else getProp result k)"

text \<open>\<open>String.prototype.includes\<close>: the pattern occurs as a contiguous substring.\<close>

fun startsWith :: "string \<Rightarrow> string \<Rightarrow> bool" where
  "startsWith s [] = True"
| "startsWith [] (p # ps) = False"
| "startsWith (c # cs) (p # ps) = (c = p \<and> startsWith cs ps)"

fun str_includes :: "string \<Rightarrow> string \<Rightarrow> bool" where
  "str_includes [] pat = (pat = [])"
| "str_includes (c # cs) pat = (startsWith (c # cs) pat \<or> str_includes cs pat)"

section \<open>The document\<close>

text \<open>
  An element carries what the script reads and writes: its id, the three inline style
  properties, its attributes and its class list. Whether it matches the feed selector
  list or the news selector list is a flag: the selectors test tag names, classes, roles
  and \<open>data-test-id\<close>, none of which the script changes on a matching element.
  The document is the list of its elements in document order; \<open>document.body\<close> is the
  first one flagged as body, and is \<open>null\<close> when there is none.
\<close>

record element =
  el_id :: string
  isBody :: bool
  matchesFeed :: bool
  matchesNews :: bool
  display :: string
  visibility :: string
  opacity :: string
  attributes :: "(string \<times> string) list"
  classList :: "string list"

record actions =
  a_display :: "string option"
  a_visibility :: "string option"
  a_opacity :: "string option"
  a_addClass :: "string option"
  a_removeClass :: "string option"
  a_setAttribute :: "(string \<times> string) option"
  a_removeAttribute :: "string option"

definition no_actions :: actions where
  "no_actions = \<lparr> a_display = None, a_visibility = None, a_opacity = None,
     a_addClass = None, a_removeClass = None, a_setAttribute = None,
     a_removeAttribute = None \<rparr>"

definition classList_add :: "string \<Rightarrow> element \<Rightarrow> element" where
  "classList_add c el =
     (if c \<in> set (classList el) then el else el\<lparr>classList := classList el @ [c]\<rparr>)"

definition classList_remove :: "string \<Rightarrow> element \<Rightarrow> element" where
  "classList_remove c el = el\<lparr>classList := removeAll c (classList el)\<rparr>"

definition setAttribute :: "string \<Rightarrow> string \<Rightarrow> element \<Rightarrow> element" where
  "setAttribute n v el = el\<lparr>attributes := AList.update n v (attributes el)\<rparr>"

definition removeAttribute :: "string \<Rightarrow> element \<Rightarrow> element" where
  "removeAttribute n el = el\<lparr>attributes := AList.delete n (attributes el)\<rparr>"

definition hasAttribute :: "string \<Rightarrow> element \<Rightarrow> bool" where
  "hasAttribute n el = (map_of (attributes el) n \<noteq> None)"

text \<open>
  \<open>safeManipulateElement(element, actions)\<close> for a non-null element: each action that is
  present is applied, in the source's order. \<open>addClass\<close>, \<open>removeClass\<close> and
  \<open>removeAttribute\<close> are tested for truthiness, so an empty string is skipped. The
  boolean the source returns is never read by a caller and is left out.
\<close>

definition safeManipulateElement :: "element \<Rightarrow> actions \<Rightarrow> element" where
  "safeManipulateElement element acts =
     (let e1 = (case a_display acts of None \<Rightarrow> element | Some v \<Rightarrow> element\<lparr>display := v\<rparr>);
          e2 = (case a_visibility acts of None \<Rightarrow> e1 | Some v \<Rightarrow> e1\<lparr>visibility := v\<rparr>);
          e3 = (case a_opacity acts of None \<Rightarrow> e2 | Some v \<Rightarrow> e2\<lparr>opacity := v\<rparr>);
          e4 = (case a_addClass acts of None \<Rightarrow> e3
                | Some c \<Rightarrow> if c = [] then e3 else classList_add c e3);
          e5 = (case a_removeClass acts of None \<Rightarrow> e4
                | Some c \<Rightarrow> if c = [] then e4 else classList_remove c e4);
          e6 = (case a_setAttribute acts of None \<Rightarrow> e5
                | Some (n, v) \<Rightarrow> setAttribute n v e5);
          e7 = (case a_removeAttribute acts of None \<Rightarrow> e6
                | Some n \<Rightarrow> if n = [] then e6 else removeAttribute n e6)
      in e7)"

text \<open>Updating the first element that satisfies a test: \<open>document.body\<close> and
  \<open>document.getElementById\<close> both denote the first match in document order.\<close>

fun update_first :: "('a \<Rightarrow> bool) \<Rightarrow> ('a \<Rightarrow> 'a) \<Rightarrow> 'a list \<Rightarrow> 'a list" where
  "update_first P f [] = []"
| "update_first P f (x # xs) = (if P x then f x # xs else x # update_first P f xs)"

definition has_body :: "element list \<Rightarrow> bool" where
  "has_body d = (\<exists>el \<in> set d. isBody el)"

definition on_body :: "(element \<Rightarrow> element) \<Rightarrow> element list \<Rightarrow> element list" where
  "on_body f d = update_first isBody f d"

definition on_element_by_id :: "string \<Rightarrow> (element \<Rightarrow> element) \<Rightarrow> element list \<Rightarrow> element list" where
  "on_element_by_id i f d = update_first (\<lambda>el. el_id el = i) f d"

definition hidden_marker :: string where
  "hidden_marker = ''data-hidden-by-focus-mode''"

subsection \<open>The feed policy of \<open>updateBlockerState\<close>\<close>

definition hide_feed_element :: "element \<Rightarrow> element" where
  "hide_feed_element el = safeManipulateElement el
     (no_actions\<lparr> a_display := Some ''none'',
        a_setAttribute := Some (hidden_marker, ''true'') \<rparr>)"

definition show_feed_element :: "element \<Rightarrow> element" where
  "show_feed_element el = safeManipulateElement el
     (no_actions\<lparr> a_display := Some [], a_visibility := Some ''visible'',
        a_opacity := Some ''1'', a_removeAttribute := Some hidden_marker \<rparr>)"

definition body_feed_classes :: "bool \<Rightarrow> element \<Rightarrow> element" where
  "body_feed_classes en b =
     (if en then classList_remove ''feed-blocker-disabled'' (classList_add ''feed-blocker-active'' b)
      else classList_remove ''feed-blocker-active'' (classList_add ''feed-blocker-disabled'' b))"

text \<open>
  The closure \<open>applyChanges\<close> of \<open>updateBlockerState(isEnabled)\<close>: nothing without a body;
  otherwise the body classes, the placeholder's display, and every element matching the
  feed selectors, written unconditionally.
\<close>

definition applyChanges :: "jsval \<Rightarrow> element list \<Rightarrow> element list" where
  "applyChanges isEnabled d =
     (if \<not> has_body d then d
      else
        let d1 = on_body (body_feed_classes (truthy isEnabled)) d;
            d2 = on_element_by_id ''feed-replacement''
                   (\<lambda>el. safeManipulateElement el
                      (no_actions\<lparr> a_display := Some (if truthy isEnabled then ''flex'' else ''none'') \<rparr>)) d1
        in map (\<lambda>el. if matchesFeed el
                      then (if truthy isEnabled then hide_feed_element el else show_feed_element el)
                      else el) d2)"

subsection \<open>The reconciliation pass of the mutation observer\<close>

definition hide_news_element :: "element \<Rightarrow> element" where
  "hide_news_element el = safeManipulateElement el
     (no_actions\<lparr> a_display := Some ''none'', a_visibility := Some ''hidden'',
        a_opacity := Some ''0'', a_setAttribute := Some (hidden_marker, ''true'') \<rparr>)"

text \<open>
  Each of the three blocks of the pass is its own \<open>try\<close>: its first statement reads
  \<open>document.body.classList\<close>, so without a body the block throws at once, the
  \<open>catch\<close> logs, and the block changes nothing.
\<close>

definition reconcile_news :: "element list \<Rightarrow> element list" where
  "reconcile_news d =
     (if \<not> has_body d then d
      else map (\<lambda>el. if matchesNews el \<and> \<not> hasAttribute hidden_marker el
                      then hide_news_element el else el)
             (on_body (classList_add ''news-blocker-active'') d))"

definition reconcile_feed :: "bool \<Rightarrow> element list \<Rightarrow> element list" where
  "reconcile_feed feedEnabled d =
     (if \<not> has_body d then d
      else if feedEnabled then
        on_element_by_id ''feed-replacement''
          (\<lambda>el. safeManipulateElement el (no_actions\<lparr> a_display := Some ''flex'' \<rparr>))
          (map (\<lambda>el. if matchesFeed el \<and> \<not> hasAttribute hidden_marker el
                      then hide_feed_element el else el)
             (on_body (body_feed_classes True) d))
      else
        on_element_by_id ''feed-replacement''
          (\<lambda>el. safeManipulateElement el (no_actions\<lparr> a_display := Some ''none'' \<rparr>))
          (map (\<lambda>el. if matchesFeed el \<and> hasAttribute hidden_marker el
                      then show_feed_element el else el)
             (on_body (body_feed_classes False) d)))"

definition reconcile :: "jsobj \<Rightarrow> element list \<Rightarrow> element list" where
  "reconcile result d =
     (let feedEnabled = prefOrDefault result ''feedBlockerEnabled'';
          newsEnabled = prefOrDefault result ''newsBlockerEnabled'';
          d1 = (if truthy newsEnabled then reconcile_news d else d)
      in reconcile_feed (truthy feedEnabled) d1)"

text \<open>The sweep shared by the click handler and the one-second interval: only when feed
  blocking is off, every feed element that is still hidden is shown again.\<close>

definition ensure_feed_visible :: "jsobj \<Rightarrow> element list \<Rightarrow> element list" where
  "ensure_feed_visible result d =
     (let feedEnabled = prefOrDefault result ''feedBlockerEnabled''
      in if truthy feedEnabled then d
         else map (\<lambda>el. if matchesFeed el \<and> (display el = ''none'' \<or> hasAttribute hidden_marker el)
                         then show_feed_element el else el) d)"

subsection \<open>The write calls of the feed policy\<close>

text \<open>
  The calls by which the script writes to an element, with their arguments: an
  assignment to one of the three inline style properties, \<open>classList.add\<close>,
  \<open>classList.remove\<close>, \<open>setAttribute\<close> and \<open>removeAttribute\<close>. \<open>apply_write\<close> is
  the effect of one call on the element; \<open>perform\<close> is the effect of a sequence of
  calls, each addressed to an element by its position in document order.
\<close>

datatype dom_write =
    StyleDisplay string
  | StyleVisibility string
  | StyleOpacity string
  | ClassListAdd string
  | ClassListRemove string
  | SetAttribute string string
  | RemoveAttribute string

fun apply_write :: "dom_write \<Rightarrow> element \<Rightarrow> element" where
  "apply_write (StyleDisplay v) el = el\<lparr>display := v\<rparr>"
| "apply_write (StyleVisibility v) el = el\<lparr>visibility := v\<rparr>"
| "apply_write (StyleOpacity v) el = el\<lparr>opacity := v\<rparr>"
| "apply_write (ClassListAdd c) el = classList_add c el"
| "apply_write (ClassListRemove c) el = classList_remove c el"
| "apply_write (SetAttribute n v) el = setAttribute n v el"
| "apply_write (RemoveAttribute n) el = removeAttribute n el"

definition perform_write :: "nat \<times> dom_write \<Rightarrow> element list \<Rightarrow> element list" where
  "perform_write iw d =
     (if fst iw < length d then d[fst iw := apply_write (snd iw) (d ! fst iw)] else d)"

definition perform :: "(nat \<times> dom_write) list \<Rightarrow> element list \<Rightarrow> element list" where
  "perform ws d = fold perform_write ws d"

text \<open>
  The calls \<open>safeManipulateElement\<close> makes for given actions, in the source's order
  (an empty \<open>addClass\<close>, \<open>removeClass\<close> or \<open>removeAttribute\<close> is skipped), the two
  class-list calls on the body, and the calls that hide or show a feed element.
\<close>

definition manipulate_writes :: "actions \<Rightarrow> dom_write list" where
  "manipulate_writes acts =
     (case a_display acts of None \<Rightarrow> [] | Some v \<Rightarrow> [StyleDisplay v])
     @ (case a_visibility acts of None \<Rightarrow> [] | Some v \<Rightarrow> [StyleVisibility v])
     @ (case a_opacity acts of None \<Rightarrow> [] | Some v \<Rightarrow> [StyleOpacity v])
     @ (case a_addClass acts of None \<Rightarrow> [] | Some c \<Rightarrow> if c = [] then [] else [ClassListAdd c])
     @ (case a_removeClass acts of None \<Rightarrow> []
        | Some c \<Rightarrow> if c = [] then [] else [ClassListRemove c])
     @ (case a_setAttribute acts of None \<Rightarrow> [] | Some (n, v) \<Rightarrow> [SetAttribute n v])
     @ (case a_removeAttribute acts of None \<Rightarrow> []
        | Some n \<Rightarrow> if n = [] then [] else [RemoveAttribute n])"

definition body_feed_writes :: "bool \<Rightarrow> dom_write list" where
  "body_feed_writes en =
     (if en then [ClassListAdd ''feed-blocker-active'', ClassListRemove ''feed-blocker-disabled'']
      else [ClassListAdd ''feed-blocker-disabled'', ClassListRemove ''feed-blocker-active''])"

definition hide_feed_writes :: "dom_write list" where
  "hide_feed_writes = manipulate_writes
     (no_actions\<lparr> a_display := Some ''none'',
        a_setAttribute := Some (hidden_marker, ''true'') \<rparr>)"

definition show_feed_writes :: "dom_write list" where
  "show_feed_writes = manipulate_writes
     (no_actions\<lparr> a_display := Some [], a_visibility := Some ''visible'',
        a_opacity := Some ''1'', a_removeAttribute := Some hidden_marker \<rparr>)"

text \<open>
  The calls that \<open>applyChanges\<close> and the feed block of the reconciliation pass make on
  a document, in the order of the source. \<open>first_writes\<close> addresses the calls to the
  first element that satisfies a test (\<open>document.body\<close>, \<open>getElementById\<close>);
  \<open>each_writes\<close> is a \<open>forEach\<close> over the document, every element with the calls made
  on it.
\<close>

fun first_writes :: "(element \<Rightarrow> bool) \<Rightarrow> dom_write list \<Rightarrow> element list \<Rightarrow> (nat \<times> dom_write) list" where
  "first_writes P ws [] = []"
| "first_writes P ws (x # xs) =
     (if P x then map (Pair 0) ws else map (\<lambda>(i, w). (Suc i, w)) (first_writes P ws xs))"

fun each_writes :: "(element \<Rightarrow> dom_write list) \<Rightarrow> element list \<Rightarrow> (nat \<times> dom_write) list" where
  "each_writes f [] = []"
| "each_writes f (x # xs) = map (Pair 0) (f x) @ map (\<lambda>(i, w). (Suc i, w)) (each_writes f xs)"

definition applyChanges_writes :: "jsval \<Rightarrow> element list \<Rightarrow> (nat \<times> dom_write) list" where
  "applyChanges_writes isEnabled d =
     (if \<not> has_body d then []
      else
        let w1 = first_writes isBody (body_feed_writes (truthy isEnabled)) d;
            d1 = on_body (body_feed_classes (truthy isEnabled)) d;
            w2 = first_writes (\<lambda>el. el_id el = ''feed-replacement'')
                   (manipulate_writes
                      (no_actions\<lparr> a_display := Some (if truthy isEnabled then ''flex'' else ''none'') \<rparr>)) d1;
            d2 = on_element_by_id ''feed-replacement''
                   (\<lambda>el. safeManipulateElement el
                      (no_actions\<lparr> a_display := Some (if truthy isEnabled then ''flex'' else ''none'') \<rparr>)) d1;
            w3 = each_writes (\<lambda>el. if matchesFeed el
                      then (if truthy isEnabled then hide_feed_writes else show_feed_writes)
                      else []) d2
        in w1 @ w2 @ w3)"

definition reconcile_feed_writes :: "bool \<Rightarrow> element list \<Rightarrow> (nat \<times> dom_write) list" where
  "reconcile_feed_writes feedEnabled d =
     (if \<not> has_body d then []
      else if feedEnabled then
        let w1 = first_writes isBody (body_feed_writes True) d;
            d1 = on_body (body_feed_classes True) d;
            w2 = each_writes (\<lambda>el. if matchesFeed el \<and> \<not> hasAttribute hidden_marker el
                      then hide_feed_writes else []) d1;
            d2 = map (\<lambda>el. if matchesFeed el \<and> \<not> hasAttribute hidden_marker el
                      then hide_feed_element el else el) d1;
            w3 = first_writes (\<lambda>el. el_id el = ''feed-replacement'')
                   (manipulate_writes (no_actions\<lparr> a_display := Some ''flex'' \<rparr>)) d2
        in w1 @ w2 @ w3
      else
        let w1 = first_writes isBody (body_feed_writes False) d;
            d1 = on_body (body_feed_classes False) d;
            w2 = each_writes (\<lambda>el. if matchesFeed el \<and> hasAttribute hidden_marker el
                      then show_feed_writes else []) d1;
            d2 = map (\<lambda>el. if matchesFeed el \<and> hasAttribute hidden_marker el
                      then show_feed_element el else el) d1;
            w3 = first_writes (\<lambda>el. el_id el = ''feed-replacement'')
                   (manipulate_writes (no_actions\<lparr> a_display := Some ''none'' \<rparr>)) d2
        in w1 @ w2 @ w3)"

section \<open>The host and the script's state\<close>

type_synonym handle = nat

datatype exn = ReferenceError string | TypeError string | HostError string

text \<open>Which links of the chain \<open>chrome.storage.local\<close> / \<open>chrome.runtime\<close> are defined.\<close>

record chrome_api =
  has_chrome :: bool
  has_storage :: bool
  has_local :: bool
  has_runtime :: bool

text \<open>
  Closures are first-order data. A \<open>get_cont\<close> is one of the callbacks the script
  passes to \<open>safeGet\<close>; a \<open>task\<close> is the body of a timer; a \<open>timer_fn\<close> is what was
  handed to the host's \<open>setTimeout\<close>/\<open>setInterval\<close>: the body itself, or the
  wrapper closure built by \<open>safeSetTimeout\<close> or \<open>safeSetInterval\<close>.
\<close>

datatype get_cont = KInitPrefs | KGetState handle | KReconcile | KEnsureVisible

datatype set_cont = SetCallback nat

datatype task =
    TRetryGet "string list" get_cont nat
  | TApplyChanges jsval
  | TReconcile handle
  | TClickCheck
  | TVisibilityCheck

datatype timer_fn = Raw task | SafeTimeout task | SafeInterval task

record timer =
  timer_due :: nat
  timer_period :: "nat option"
  timer_fn :: timer_fn

record observer =
  obs_connected :: bool
  obs_timeout :: "handle option"

datatype ready_state = Loading | Interactive | Complete

text \<open>One-shot \<open>DOMContentLoaded\<close> listeners the script registers.\<close>

datatype dcl_listener = LApplyChanges jsval | LStartObserving handle

text \<open>\<open>chrome.runtime.lastError\<close> inside a completion callback: unset, or an error object
  whose \<open>message\<close> may itself be missing.\<close>

type_synonym last_error = "string option option"

record state =
  \<comment> \<open>the script's global arrays\<close>
  observers :: "handle list"
  intervals :: "handle list"
  timeouts :: "handle list"
  \<comment> \<open>the extension runtime\<close>
  api :: chrome_api
  invalidated :: bool
  store :: jsobj
  next_request :: handle
  pending_gets :: "(handle \<times> string list \<times> get_cont \<times> nat) list"
  pending_sets :: "(handle \<times> jsobj \<times> set_cont option) list"
  \<comment> \<open>the window: clock, timers, observers, document\<close>
  now :: nat
  next_timer :: handle
  timers :: "(handle \<times> timer) list"
  next_observer :: handle
  observer_objs :: "(handle \<times> observer) list"
  faulty :: "handle list"
  document :: "element list"
  readyState :: ready_state
  dcl_listeners :: "dcl_listener list"
  click_listener :: bool
  \<comment> \<open>what the script has been seen to do\<close>
  get_callbacks :: "(get_cont \<times> jsobj) list"
  set_callbacks :: "set_cont list"
  responses :: "(handle \<times> jsobj) list"
  uncaught :: "exn list"

definition isChromeAPIAvailable :: "state \<Rightarrow> bool" where
  "isChromeAPIAvailable s =
     (has_chrome (api s) \<and> has_storage (api s) \<and> has_local (api s) \<and> has_runtime (api s))"

subsection \<open>Host primitives\<close>

text \<open>
  \<open>setTimeout\<close> and \<open>setInterval\<close> draw their ids from one counter, and
  \<open>clearTimeout\<close>/\<open>clearInterval\<close> clear either kind. A handle listed in \<open>faulty\<close>
  is one whose cancellation call throws and has no effect; the browser's own calls never
  do, so \<open>faulty\<close> is empty for a real page and is there to exercise the \<open>catch\<close>
  blocks of the source.
\<close>

definition setTimeout :: "timer_fn \<Rightarrow> nat \<Rightarrow> state \<Rightarrow> handle \<times> state" where
  "setTimeout f delay s =
     (next_timer s,
      s\<lparr> timers := AList.update (next_timer s)
             \<lparr> timer_due = now s + delay, timer_period = None, timer_fn = f \<rparr> (timers s),
         next_timer := Suc (next_timer s) \<rparr>)"

definition setInterval :: "timer_fn \<Rightarrow> nat \<Rightarrow> state \<Rightarrow> handle \<times> state" where
  "setInterval f delay s =
     (next_timer s,
      s\<lparr> timers := AList.update (next_timer s)
             \<lparr> timer_due = now s + delay, timer_period = Some delay, timer_fn = f \<rparr> (timers s),
         next_timer := Suc (next_timer s) \<rparr>)"

definition clearTimer :: "handle \<Rightarrow> state \<Rightarrow> exn + state" where
  "clearTimer h s =
     (if h \<in> set (faulty s) then Inl (HostError ''clear failed'')
      else Inr (s\<lparr> timers := AList.delete h (timers s) \<rparr>))"

definition disconnect :: "handle \<Rightarrow> state \<Rightarrow> exn + state" where
  "disconnect h s =
     (if h \<in> set (faulty s) then Inl (HostError ''disconnect failed'')
      else Inr (s\<lparr> observer_objs :=
                    AList.map_entry h (\<lambda>ob. ob\<lparr>obs_connected := False\<rparr>) (observer_objs s) \<rparr>))"

fun storage_read :: "string list \<Rightarrow> jsobj \<Rightarrow> jsobj" where
  "storage_read [] st = []"
| "storage_read (k # ks) st =
     (case map_of st k of None \<Rightarrow> storage_read ks st
      | Some v \<Rightarrow> (k, v) # storage_read ks st)"

fun storage_write :: "jsobj \<Rightarrow> jsobj \<Rightarrow> jsobj" where
  "storage_write [] st = st"
| "storage_write ((k, v) # kvs) st =
     storage_write kvs (if v = Undefined then st else AList.update k v st)"

text \<open>
  Evaluating \<open>chrome.storage.local.get(keys, fn)\<close>: a missing link of the chain
  throws, an invalidated context makes the call itself throw, otherwise the request is
  queued and \<open>fn\<close> runs when the host completes it.
\<close>

definition storage_chain :: "state \<Rightarrow> exn option" where
  "storage_chain s =
     (if \<not> has_chrome (api s) then Some (ReferenceError ''chrome is not defined'')
      else if \<not> has_storage (api s) \<or> \<not> has_local (api s)
        then Some (TypeError ''cannot read properties of undefined'')
      else if invalidated s then Some (HostError ''Extension context invalidated.'')
      else None)"

definition storage_local_get :: "string list \<Rightarrow> get_cont \<Rightarrow> nat \<Rightarrow> state \<Rightarrow> exn + state" where
  "storage_local_get keys k retries s =
     (case storage_chain s of
        Some e \<Rightarrow> Inl e
      | None \<Rightarrow> Inr (s\<lparr> pending_gets := AList.update (next_request s) (keys, k, retries) (pending_gets s),
                        next_request := Suc (next_request s) \<rparr>))"

definition storage_local_set :: "jsobj \<Rightarrow> set_cont option \<Rightarrow> state \<Rightarrow> exn + state" where
  "storage_local_set data cb s =
     (case storage_chain s of
        Some e \<Rightarrow> Inl e
      | None \<Rightarrow> Inr (s\<lparr> pending_sets := AList.update (next_request s) (data, cb) (pending_sets s),
                        next_request := Suc (next_request s) \<rparr>))"

text \<open>Reading \<open>chrome.runtime.lastError\<close> throws when \<open>chrome\<close> or \<open>chrome.runtime\<close>
  is undefined.\<close>

definition runtime_chain :: "state \<Rightarrow> exn option" where
  "runtime_chain s =
     (if \<not> has_chrome (api s) then Some (ReferenceError ''chrome is not defined'')
      else if \<not> has_runtime (api s)
        then Some (TypeError ''cannot read properties of undefined (reading lastError)'')
      else None)"

section \<open>The content script\<close>

text \<open>
  Modelled here: the availability guard, the defensive read and write, the resource
  tracker with its teardown, the feed policy, the mutation observer with its throttle, the
  click handler, the periodic visibility check and the message listener. The injection of
  the placeholder (\<open>createReplacementContent\<close>) and the start-up sequence
  (\<open>safeInit\<close>, \<open>handleExtensionInvalidation\<close>, the body of \<open>initFeedBlocker\<close> around
  its read, its listener and its call of \<open>setupMutationObserver\<close>) are not: the
  properties below are about the parts listed.
\<close>

subsection \<open>Defensive write\<close>

definition safeSet :: "jsobj \<Rightarrow> set_cont option \<Rightarrow> state \<Rightarrow> bool \<times> state" where
  "safeSet data callback s =
     (if \<not> isChromeAPIAvailable s then (False, s)
      else case storage_local_set data callback s of
             Inl e \<Rightarrow> (False, s)
           | Inr s' \<Rightarrow> (True, s'))"

text \<open>The closure \<open>safeSet\<close> hands to the store, run by the host on completion. An
  exception it raises has no \<open>try\<close> around it and reaches the event loop.\<close>

definition set_completion :: "set_cont option \<Rightarrow> last_error \<Rightarrow> state \<Rightarrow> exn option \<times> state" where
  "set_completion callback err s =
     (case runtime_chain s of
        Some e \<Rightarrow> (Some e, s)
      | None \<Rightarrow>
         (case err of
            Some e \<Rightarrow> (None, s)
          | None \<Rightarrow>
             (case callback of
                None \<Rightarrow> (None, s)
              | Some c \<Rightarrow> (None, s\<lparr> set_callbacks := set_callbacks s @ [c] \<rparr>))))"

subsection \<open>Resource tracker\<close>

text \<open>The host's \<open>setTimeout\<close> and \<open>setInterval\<close> do not throw, so the \<open>catch\<close>
  that returns \<open>null\<close> is never entered and the wrappers always return the new id.\<close>

definition safeSetTimeout :: "task \<Rightarrow> nat \<Rightarrow> state \<Rightarrow> handle \<times> state" where
  "safeSetTimeout callback delay s =
     (let (timeoutId, s1) = setTimeout (SafeTimeout callback) delay s
      in (timeoutId, s1\<lparr> timeouts := timeouts s1 @ [timeoutId] \<rparr>))"

definition safeSetInterval :: "task \<Rightarrow> nat \<Rightarrow> state \<Rightarrow> handle \<times> state" where
  "safeSetInterval callback delay s =
     (let (intervalId, s1) = setInterval (SafeInterval callback) delay s
      in (intervalId, s1\<lparr> intervals := intervals s1 @ [intervalId] \<rparr>))"

definition clearSafeInterval :: "handle \<Rightarrow> state \<Rightarrow> state" where
  "clearSafeInterval intervalId s =
     (case clearTimer intervalId s of
        Inl e \<Rightarrow> s
      | Inr s1 \<Rightarrow> s1\<lparr> intervals := remove1 intervalId (intervals s1) \<rparr>)"

definition clearSafeTimeout :: "handle \<Rightarrow> state \<Rightarrow> state" where
  "clearSafeTimeout timeoutId s =
     (case clearTimer timeoutId s of
        Inl e \<Rightarrow> s
      | Inr s1 \<Rightarrow> s1\<lparr> timeouts := remove1 timeoutId (timeouts s1) \<rparr>)"

text \<open>One \<open>forEach\<close> of \<open>cleanupResources\<close>: every call sits in its own \<open>try\<close> with an
  empty \<open>catch\<close>.\<close>

fun clear_each :: "handle list \<Rightarrow> state \<Rightarrow> state" where
  "clear_each [] s = s"
| "clear_each (h # hs) s =
     clear_each hs (case clearTimer h s of Inl e \<Rightarrow> s | Inr s1 \<Rightarrow> s1)"

fun disconnect_each :: "handle list \<Rightarrow> state \<Rightarrow> state" where
  "disconnect_each [] s = s"
| "disconnect_each (h # hs) s =
     disconnect_each hs (case disconnect h s of Inl e \<Rightarrow> s | Inr s1 \<Rightarrow> s1)"

definition cleanupResources :: "state \<Rightarrow> state" where
  "cleanupResources s =
     (let s1 = (clear_each (intervals s) s)\<lparr> intervals := [] \<rparr>;
          s2 = (clear_each (timeouts s1) s1)\<lparr> timeouts := [] \<rparr>
      in (disconnect_each (observers s2) s2)\<lparr> observers := [] \<rparr>)"

subsection \<open>Feed and news state\<close>

definition updateBlockerState :: "jsval \<Rightarrow> state \<Rightarrow> state" where
  "updateBlockerState isEnabled s =
     (if \<not> isChromeAPIAvailable s then s
      else
        let s1 = snd (safeSet [(''feedBlockerEnabled'', isEnabled)] None s);
            s2 = (if has_body (document s1)
                  then s1\<lparr> document := applyChanges isEnabled (document s1) \<rparr> else s1);
            s3 = snd (safeSetTimeout (TApplyChanges isEnabled) 100 s2)
        in if readyState s3 \<noteq> Complete
           then s3\<lparr> dcl_listeners := dcl_listeners s3 @ [LApplyChanges isEnabled] \<rparr> else s3)"

text \<open>
  The declaration of \<open>updateNewsBlockerState\<close> lies inside the block comment that runs
  from line 454 to line 542 of the content script, and no other file declares it. The
  two call sites (the initial read and the \<open>toggleNewsBlocker\<close> branch of the message
  listener) therefore evaluate an unbound identifier, which throws.
\<close>

definition updateNewsBlockerState :: "jsval \<Rightarrow> state \<Rightarrow> exn option \<times> state" where
  "updateNewsBlockerState isEnabled s =
     (Some (ReferenceError ''updateNewsBlockerState is not defined''), s)"

subsection \<open>Callbacks of the defensive read\<close>

definition initPrefsCallback :: "jsobj \<Rightarrow> state \<Rightarrow> exn option \<times> state" where
  "initPrefsCallback result s =
     (let feedEnabled = prefOrDefault result ''feedBlockerEnabled'';
          newsEnabled = prefOrDefault result ''newsBlockerEnabled''
      in updateNewsBlockerState newsEnabled (updateBlockerState feedEnabled s))"

definition getStateCallback :: "handle \<Rightarrow> jsobj \<Rightarrow> state \<Rightarrow> state" where
  "getStateCallback sendResponse result s =
     (let feedEnabled = prefOrDefault result ''feedBlockerEnabled'';
          newsEnabled = prefOrDefault result ''newsBlockerEnabled''
      in s\<lparr> responses := responses s @
               [(sendResponse, [(''enabled'', feedEnabled), (''newsEnabled'', newsEnabled)])] \<rparr>)"

text \<open>Calling a callback: the call is recorded, then the body runs.\<close>

definition call_get_cont :: "get_cont \<Rightarrow> jsobj \<Rightarrow> state \<Rightarrow> exn option \<times> state" where
  "call_get_cont callback result s =
     (let s1 = s\<lparr> get_callbacks := get_callbacks s @ [(callback, result)] \<rparr>
      in case callback of
           KInitPrefs \<Rightarrow> initPrefsCallback result s1
         | KGetState ch \<Rightarrow> (None, getStateCallback ch result s1)
         | KReconcile \<Rightarrow> (None, s1\<lparr> document := reconcile result (document s1) \<rparr>)
         | KEnsureVisible \<Rightarrow> (None, s1\<lparr> document := ensure_feed_visible result (document s1) \<rparr>))"

subsection \<open>Defensive read\<close>

text \<open>
  \<open>safeGet(keys, callback, retries = 1)\<close>. There is no availability check: the call is
  attempted, and only an exception thrown by the attempt itself reaches the \<open>catch\<close>,
  which calls the callback with \<open>{}\<close> (outside any \<open>try\<close>, so an exception of the
  callback leaves \<open>safeGet\<close>).
\<close>

definition safeGet :: "string list \<Rightarrow> get_cont \<Rightarrow> nat \<Rightarrow> state \<Rightarrow> exn option \<times> state" where
  "safeGet keys callback retries s =
     (case storage_local_get keys callback retries s of
        Inr s' \<Rightarrow> (None, s')
      | Inl e \<Rightarrow> call_get_cont callback [] s)"

definition transient :: "string option \<Rightarrow> bool" where
  "transient msg =
     (case msg of None \<Rightarrow> False
      | Some m \<Rightarrow> str_includes m ''Extension context invalidated'')"

text \<open>
  The closure \<open>safeGet\<close> hands to the store. The retry is scheduled with the host's own
  \<open>setTimeout\<close>, not with \<open>safeSetTimeout\<close>.
\<close>

definition get_completion ::
  "string list \<Rightarrow> get_cont \<Rightarrow> nat \<Rightarrow> last_error \<Rightarrow> jsobj \<Rightarrow> state \<Rightarrow> exn option \<times> state" where
  "get_completion keys callback retries err result s =
     (case runtime_chain s of
        Some e \<Rightarrow> (Some e, s)
      | None \<Rightarrow>
         (case err of
            Some msg \<Rightarrow>
              if retries > 0 \<and> transient msg
              then (None, snd (setTimeout (Raw (TRetryGet keys callback (retries - 1))) 100 s))
              else call_get_cont callback [] s
          | None \<Rightarrow> call_get_cont callback result s))"

subsection \<open>Timer bodies and the host firing a timer\<close>

definition set_obs_timeout :: "handle \<Rightarrow> handle option \<Rightarrow> state \<Rightarrow> state" where
  "set_obs_timeout obs v s =
     s\<lparr> observer_objs := AList.map_entry obs (\<lambda>ob. ob\<lparr>obs_timeout := v\<rparr>) (observer_objs s) \<rparr>"

text \<open>
  The body of each timer the script creates; \<open>self\<close> is the id the creating call
  returned, which the interval bodies captured. A call of \<open>safeGet\<close> without a third
  argument has \<open>retries = 1\<close>.
\<close>

definition run_task :: "handle \<Rightarrow> task \<Rightarrow> state \<Rightarrow> exn option \<times> state" where
  "run_task self t s =
     (case t of
        TRetryGet keys callback retries \<Rightarrow> safeGet keys callback retries s
      | TApplyChanges isEnabled \<Rightarrow>
          (None, s\<lparr> document := applyChanges isEnabled (document s) \<rparr>)
      | TReconcile obs \<Rightarrow>
          safeGet [''feedBlockerEnabled'', ''newsBlockerEnabled''] KReconcile 1
            (set_obs_timeout obs None s)
      | TClickCheck \<Rightarrow> safeGet [''feedBlockerEnabled''] KEnsureVisible 1 s
      | TVisibilityCheck \<Rightarrow>
          if \<not> isChromeAPIAvailable s then (None, clearSafeInterval self s)
          else (case safeGet [''feedBlockerEnabled''] KEnsureVisible 1 s of
                  (None, s1) \<Rightarrow> (None, s1)
                | (Some e, s1) \<Rightarrow> (None, clearSafeInterval self s1)))"

text \<open>
  The host fires a live timer once its delay has passed. A one-shot timer leaves the
  host's table as it fires; an interval is rescheduled. The wrapper of
  \<open>safeSetTimeout\<close> drops the id from \<open>timeouts\<close> and swallows the body's exception;
  the wrapper of \<open>safeSetInterval\<close> checks availability and clears itself on failure;
  a raw timer has no wrapper, so its exception reaches the event loop.
\<close>

definition run_timer_fn :: "handle \<Rightarrow> timer_fn \<Rightarrow> state \<Rightarrow> state" where
  "run_timer_fn h f s =
     (case f of
        Raw task \<Rightarrow>
          (case run_task h task s of
             (None, s1) \<Rightarrow> s1
           | (Some e, s1) \<Rightarrow> s1\<lparr> uncaught := uncaught s1 @ [e] \<rparr>)
      | SafeTimeout task \<Rightarrow>
          snd (run_task h task (s\<lparr> timeouts := remove1 h (timeouts s) \<rparr>))
      | SafeInterval task \<Rightarrow>
          (if \<not> isChromeAPIAvailable s then clearSafeInterval h s
           else (case run_task h task s of
                   (None, s1) \<Rightarrow> s1
                 | (Some e, s1) \<Rightarrow> clearSafeInterval h s1)))"

definition reschedule :: "handle \<Rightarrow> timer \<Rightarrow> state \<Rightarrow> state" where
  "reschedule h t s =
     (case timer_period t of
        None \<Rightarrow> s\<lparr> timers := AList.delete h (timers s) \<rparr>
      | Some p \<Rightarrow> s\<lparr> timers := AList.update h (t\<lparr> timer_due := now s + p \<rparr>) (timers s) \<rparr>)"

definition fire_timer :: "handle \<Rightarrow> state \<Rightarrow> state" where
  "fire_timer h s =
     (case map_of (timers s) h of
        None \<Rightarrow> s
      | Some t \<Rightarrow>
          (if now s < timer_due t then s
           else run_timer_fn h (timer_fn t) (reschedule h t s)))"

subsection \<open>The mutation observer\<close>

definition timeout_pending :: "handle \<Rightarrow> state \<Rightarrow> bool" where
  "timeout_pending obs s =
     (case map_of (observer_objs s) obs of
        None \<Rightarrow> False
      | Some ob \<Rightarrow> (case obs_timeout ob of None \<Rightarrow> False | Some h \<Rightarrow> h \<noteq> 0))"

text \<open>The callback given to \<open>new MutationObserver\<close>; \<open>timeout_pending\<close> is the
  truthiness test \<open>if (observer.timeout)\<close>.\<close>

definition observerCallback :: "handle \<Rightarrow> state \<Rightarrow> state" where
  "observerCallback obs s =
     (if \<not> isChromeAPIAvailable s then
        (case disconnect obs s of
           Inl e \<Rightarrow> s
         | Inr s1 \<Rightarrow> s1\<lparr> observers := remove1 obs (observers s1) \<rparr>)
      else if \<not> has_body (document s) then s
      else if timeout_pending obs s then s
      else
        let (h, s1) = safeSetTimeout (TReconcile obs) 200 s
        in set_obs_timeout obs (Some h) s1)"

definition startObserving :: "handle \<Rightarrow> state \<Rightarrow> state" where
  "startObserving obs s =
     (if has_body (document s)
      then s\<lparr> observer_objs :=
                AList.map_entry obs (\<lambda>ob. ob\<lparr>obs_connected := True\<rparr>) (observer_objs s) \<rparr>
      else s)"

definition clickHandler :: "state \<Rightarrow> state" where
  "clickHandler s =
     (if \<not> isChromeAPIAvailable s then s\<lparr> click_listener := False \<rparr>
      else snd (safeSetTimeout TClickCheck 500 s))"

definition setupMutationObserver :: "state \<Rightarrow> state" where
  "setupMutationObserver s =
     (let obs = next_observer s;
          s1 = s\<lparr> observer_objs := AList.update obs
                     \<lparr> obs_connected = False, obs_timeout = None \<rparr> (observer_objs s),
                   next_observer := Suc obs \<rparr>;
          s2 = s1\<lparr> observers := observers s1 @ [obs] \<rparr>;
          s3 = startObserving obs s2;
          s4 = s3\<lparr> dcl_listeners := dcl_listeners s3 @ [LStartObserving obs],
                   click_listener := True \<rparr>
      in snd (safeSetInterval TVisibilityCheck 1000 s4))"

subsection \<open>The message listener\<close>

definition send_response :: "handle \<Rightarrow> jsobj \<Rightarrow> state \<Rightarrow> state" where
  "send_response ch payload s = s\<lparr> responses := responses s @ [(ch, payload)] \<rparr>"

text \<open>
  The listener registered by \<open>initFeedBlocker\<close>, for a request object and the response
  channel \<open>sendResponse\<close>. It returns the listener's return value, or the exception
  that leaves it: the listener has no \<open>try\<close> of its own.
\<close>

definition onMessage :: "jsobj \<Rightarrow> handle \<Rightarrow> state \<Rightarrow> (exn + jsval) \<times> state" where
  "onMessage request sendResponse s =
     (if \<not> isChromeAPIAvailable s then (Inr Undefined, s)
      else if getProp request ''action'' = JStr ''toggleFeedBlocker'' then
        (Inr Undefined,
         send_response sendResponse [(''success'', JBool True)]
           (updateBlockerState (getProp request ''enabled'') s))
      else if getProp request ''action'' = JStr ''toggleNewsBlocker'' then
        (case updateNewsBlockerState (getProp request ''enabled'') s of
           (Some e, s1) \<Rightarrow> (Inl e, s1)
         | (None, s1) \<Rightarrow>
             (Inr Undefined, send_response sendResponse [(''success'', JBool True)] s1))
      else if getProp request ''action'' = JStr ''getState'' then
        (case safeGet [''feedBlockerEnabled'', ''newsBlockerEnabled''] (KGetState sendResponse) 1 s of
           (Some e, s1) \<Rightarrow> (Inl e, s1)
         | (None, s1) \<Rightarrow> (Inr (JBool True), s1))
      else (Inr Undefined, s))"

section \<open>The event loop\<close>

text \<open>
  Everything after script start happens in response to the host: a timer fires, a store
  request completes (with or without \<open>lastError\<close>), the observer is notified, a message
  or a click arrives, the document finishes loading, the page unloads. The environment
  may also change the runtime's availability, let time pass, or rewrite the page.
  \<open>EvSetupObserver\<close> is \<open>initFeedBlocker\<close> reaching its call of
  \<open>setupMutationObserver\<close>; \<open>EvMessage\<close> is a message delivered to the listener that
  \<open>initFeedBlocker\<close> registered; \<open>EvUnload\<close> is \<open>beforeunload\<close>, whose listener is
  \<open>cleanupResources\<close>.
\<close>

datatype event =
    EvTimer handle
  | EvGetDone handle last_error
  | EvSetDone handle last_error
  | EvMutation handle
  | EvMessage jsobj handle
  | EvClick
  | EvDOMContentLoaded
  | EvUnload
  | EvSetupObserver
  | EvHost chrome_api bool
  | EvAdvance nat
  | EvPage "element list"

definition to_event_loop :: "exn option \<times> state \<Rightarrow> state" where
  "to_event_loop r =
     (case r of (None, s) \<Rightarrow> s | (Some e, s) \<Rightarrow> s\<lparr> uncaught := uncaught s @ [e] \<rparr>)"

text \<open>On success the host passes the stored values of the requested keys; with
  \<open>lastError\<close> set the argument is not read by the script.\<close>

definition deliver_get :: "handle \<Rightarrow> last_error \<Rightarrow> state \<Rightarrow> state" where
  "deliver_get h err s =
     (case map_of (pending_gets s) h of
        None \<Rightarrow> s
      | Some (keys, callback, retries) \<Rightarrow>
          to_event_loop
            (get_completion keys callback retries err
               (if err = None then storage_read keys (store s) else [])
               (s\<lparr> pending_gets := AList.delete h (pending_gets s) \<rparr>)))"

definition deliver_set :: "handle \<Rightarrow> last_error \<Rightarrow> state \<Rightarrow> state" where
  "deliver_set h err s =
     (case map_of (pending_sets s) h of
        None \<Rightarrow> s
      | Some (data, callback) \<Rightarrow>
          to_event_loop
            (set_completion callback err
               (s\<lparr> pending_sets := AList.delete h (pending_sets s),
                    store := (if err = None then storage_write data (store s) else store s) \<rparr>)))"

definition run_dcl :: "dcl_listener \<Rightarrow> state \<Rightarrow> state" where
  "run_dcl l s =
     (case l of
        LApplyChanges isEnabled \<Rightarrow> s\<lparr> document := applyChanges isEnabled (document s) \<rparr>
      | LStartObserving obs \<Rightarrow> startObserving obs s)"

definition step :: "event \<Rightarrow> state \<Rightarrow> state" where
  "step ev s =
     (case ev of
        EvTimer h \<Rightarrow> fire_timer h s
      | EvGetDone h err \<Rightarrow> deliver_get h err s
      | EvSetDone h err \<Rightarrow> deliver_set h err s
      | EvMutation obs \<Rightarrow>
          (case map_of (observer_objs s) obs of
             None \<Rightarrow> s
           | Some ob \<Rightarrow> if obs_connected ob then observerCallback obs s else s)
      | EvMessage request ch \<Rightarrow>
          (case onMessage request ch s of
             (Inl e, s1) \<Rightarrow> s1\<lparr> uncaught := uncaught s1 @ [e] \<rparr>
           | (Inr v, s1) \<Rightarrow> s1)
      | EvClick \<Rightarrow> if click_listener s then clickHandler s else s
      | EvDOMContentLoaded \<Rightarrow>
          fold run_dcl (dcl_listeners s) (s\<lparr> readyState := Interactive, dcl_listeners := [] \<rparr>)
      | EvUnload \<Rightarrow> cleanupResources s
      | EvSetupObserver \<Rightarrow> setupMutationObserver s
      | EvHost a inval \<Rightarrow> s\<lparr> api := a, invalidated := inval \<rparr>
      | EvAdvance d \<Rightarrow> s\<lparr> now := now s + d \<rparr>
      | EvPage d \<Rightarrow> s\<lparr> document := d \<rparr>)"

fun run :: "event list \<Rightarrow> state \<Rightarrow> state" where
  "run [] s = s"
| "run (ev # evs) s = run evs (step ev s)"

text \<open>The state in which the script starts: nothing tracked, nothing pending; timer ids
  start at 1, as the host's ids are positive.\<close>

definition start_state :: "chrome_api \<Rightarrow> jsobj \<Rightarrow> element list \<Rightarrow> state" where
  "start_state a st d =
     \<lparr> observers = [], intervals = [], timeouts = [],
       api = a, invalidated = False, store = st, next_request = 0,
       pending_gets = [], pending_sets = [],
       now = 0, next_timer = 1, timers = [],
       next_observer = 0, observer_objs = [], faulty = [],
       document = d, readyState = Loading, dcl_listeners = [], click_listener = False,
       get_callbacks = [], set_callbacks = [], responses = [], uncaught = [] \<rparr>"

section \<open>Notions used in the properties\<close>

text \<open>A timer the host can still fire, and an observer that can still be notified.\<close>

definition timer_live :: "handle \<Rightarrow> state \<Rightarrow> bool" where
  "timer_live h s = (map_of (timers s) h \<noteq> None)"

definition is_connected :: "handle \<Rightarrow> state \<Rightarrow> bool" where
  "is_connected h s =
     (case map_of (observer_objs s) h of None \<Rightarrow> False | Some ob \<Rightarrow> obs_connected ob)"

text \<open>Names for the per-element functions that occur as anonymous closures in the policy.\<close>

definition set_display :: "string \<Rightarrow> element \<Rightarrow> element" where
  "set_display v el = safeManipulateElement el (no_actions\<lparr> a_display := Some v \<rparr>)"

definition feed_rule :: "bool \<Rightarrow> element \<Rightarrow> element" where
  "feed_rule en el =
     (if matchesFeed el then (if en then hide_feed_element el else show_feed_element el) else el)"

definition reconcile_rule :: "bool \<Rightarrow> element \<Rightarrow> element" where
  "reconcile_rule en el =
     (if en then (if matchesFeed el \<and> \<not> hasAttribute hidden_marker el then hide_feed_element el else el)
      else (if matchesFeed el \<and> hasAttribute hidden_marker el then show_feed_element el else el))"

subsection \<open>The observer's throttle\<close>

text \<open>
  The \<open>timeout\<close> property of an observer; the reconciliation timers the host holds for
  it; and the invariant that ties the two: every live timer has a positive id below the
  counter, and a timer whose body is the reconciliation of an observer is the one-shot
  wrapper of \<open>safeSetTimeout\<close> whose id that observer's \<open>timeout\<close> holds.
  \<open>extends s s'\<close> describes a step that keeps every observer's \<open>timeout\<close>, keeps or
  drops old timers and adds only timers that are not reconciliations.
\<close>

definition obs_timeout_of :: "handle \<Rightarrow> state \<Rightarrow> handle option" where
  "obs_timeout_of obs s =
     (case map_of (observer_objs s) obs of None \<Rightarrow> None | Some ob \<Rightarrow> obs_timeout ob)"

fun task_of :: "timer_fn \<Rightarrow> task" where
  "task_of (Raw t) = t"
| "task_of (SafeTimeout t) = t"
| "task_of (SafeInterval t) = t"

definition reconcile_pending :: "handle \<Rightarrow> handle \<Rightarrow> state \<Rightarrow> bool" where
  "reconcile_pending obs h s =
     (case map_of (timers s) h of
        None \<Rightarrow> False
      | Some t \<Rightarrow> task_of (timer_fn t) = TReconcile obs)"

definition throttle_inv :: "state \<Rightarrow> bool" where
  "throttle_inv s =
     (0 < next_timer s
      \<and> (\<forall>h t. map_of (timers s) h = Some t \<longrightarrow>
             0 < h \<and> h < next_timer s
             \<and> (\<forall>obs. task_of (timer_fn t) = TReconcile obs \<longrightarrow>
                    timer_fn t = SafeTimeout (TReconcile obs) \<and> timer_period t = None
                    \<and> obs_timeout_of obs s = Some h))
      \<and> (\<forall>obs ob. map_of (observer_objs s) obs = Some ob \<longrightarrow> obs < next_observer s))"

definition extends :: "state \<Rightarrow> state \<Rightarrow> bool" where
  "extends s s' =
     (next_timer s \<le> next_timer s' \<and> next_observer s' = next_observer s
      \<and> (\<forall>obs. obs_timeout_of obs s' = obs_timeout_of obs s)
      \<and> (\<forall>obs. (map_of (observer_objs s') obs = None) = (map_of (observer_objs s) obs = None))
      \<and> (\<forall>h t. map_of (timers s') h = Some t \<longrightarrow>
             (\<exists>t0. map_of (timers s) h = Some t0 \<and> timer_fn t0 = timer_fn t
                   \<and> timer_period t0 = timer_period t)
             \<or> (next_timer s \<le> h \<and> h < next_timer s'
                 \<and> (\<forall>obs. task_of (timer_fn t) \<noteq> TReconcile obs))))"

definition tview :: "state \<Rightarrow> (handle \<times> timer) list \<times> handle \<times> (handle \<times> observer) list \<times> handle" where
  "tview s = (timers s, next_timer s, observer_objs s, next_observer s)"

fun burst_elapsed :: "event list \<Rightarrow> nat" where
  "burst_elapsed [] = 0"
| "burst_elapsed (EvAdvance d # evs) = d + burst_elapsed evs"
| "burst_elapsed (ev # evs) = burst_elapsed evs"

fun burst_event :: "handle \<Rightarrow> handle \<Rightarrow> event \<Rightarrow> bool" where
  "burst_event obs h (EvMutation x) = (x = obs)"
| "burst_event obs h (EvAdvance d) = True"
| "burst_event obs h (EvTimer x) = (x = h)"
| "burst_event obs h ev = False"

subsection \<open>Teardown\<close>

text \<open>
  \<open>tracked_inv\<close>: every handle in a registry was issued by the host, so it lies below
  the host's counter. \<open>calm dcl s s'\<close> describes what a step may do to timers, observers
  and listeners: the counters do not decrease and \<open>faulty\<close> is kept; a timer that is
  live afterwards was live before or is new; an observer that is connected afterwards
  was connected before or is new or, when \<open>dcl\<close> holds, had its \<open>startObserving\<close>
  listener registered; a \<open>startObserving\<close> listener registered afterwards was
  registered before or belongs to a new observer; and a registry holds handles it held
  before or new ones.
\<close>

definition tracked_inv :: "state \<Rightarrow> bool" where
  "tracked_inv s =
     ((\<forall>h \<in> set (intervals s) \<union> set (timeouts s). h < next_timer s)
      \<and> (\<forall>h \<in> set (observers s). h < next_observer s))"

definition calm :: "bool \<Rightarrow> state \<Rightarrow> state \<Rightarrow> bool" where
  "calm dcl s s' =
     (next_timer s \<le> next_timer s' \<and> next_observer s \<le> next_observer s'
      \<and> faulty s' = faulty s
      \<and> (\<forall>h. timer_live h s' \<longrightarrow> timer_live h s \<or> next_timer s \<le> h)
      \<and> (\<forall>h. is_connected h s' \<longrightarrow>
             is_connected h s \<or> next_observer s \<le> h
             \<or> (dcl \<and> LStartObserving h \<in> set (dcl_listeners s)))
      \<and> (\<forall>h. LStartObserving h \<in> set (dcl_listeners s') \<longrightarrow>
             LStartObserving h \<in> set (dcl_listeners s) \<or> next_observer s \<le> h)
      \<and> (\<forall>h \<in> set (intervals s') \<union> set (timeouts s').
             h \<in> set (intervals s) \<union> set (timeouts s) \<or> (next_timer s \<le> h \<and> h < next_timer s'))
      \<and> (\<forall>h \<in> set (observers s').
             h \<in> set (observers s) \<or> (next_observer s \<le> h \<and> h < next_observer s')))"

definition qview :: "state \<Rightarrow>
    ((handle \<times> timer) list \<times> handle \<times> (handle \<times> observer) list \<times> handle)
    \<times> dcl_listener list \<times> handle list \<times> handle list \<times> handle list \<times> handle list" where
  "qview s = (tview s, dcl_listeners s, intervals s, timeouts s, observers s, faulty s)"

subsection \<open>Sample states\<close>

definition available_api :: chrome_api where
  "available_api =
     \<lparr> has_chrome = True, has_storage = True, has_local = True, has_runtime = True \<rparr>"

definition runtime_missing_api :: chrome_api where
  "runtime_missing_api =
     \<lparr> has_chrome = True, has_storage = True, has_local = True, has_runtime = False \<rparr>"

definition sample_body :: element where
  "sample_body =
     \<lparr> el_id = [], isBody = True, matchesFeed = False, matchesNews = False,
       display = [], visibility = [], opacity = [], attributes = [], classList = [] \<rparr>"

definition sample_feed :: element where
  "sample_feed =
     \<lparr> el_id = [], isBody = False, matchesFeed = True, matchesNews = False,
       display = [], visibility = [], opacity = [], attributes = [],
       classList = [''scaffold-finite-scroll''] \<rparr>"

definition sample_state :: state where
  "sample_state =
     start_state available_api [(''feedBlockerEnabled'', JBool False)] [sample_body, sample_feed]"

definition empty_store_state :: state where
  "empty_store_state = start_state available_api [] [sample_body, sample_feed]"

definition runtime_missing_state :: state where
  "runtime_missing_state = start_state runtime_missing_api [] [sample_body, sample_feed]"

definition tracked_state :: state where
  "tracked_state =
     setupMutationObserver (snd (safeSetTimeout (TApplyChanges (JBool True)) 100 sample_state))"

section \<open>Properties\<close>

subsection \<open>Frame lemmas\<close>

lemma run_append: "run (evs @ evs') s = run evs' (run evs s)"
  by (induction evs arbitrary: s) simp_all

lemma storage_chain_frame:
  "api s' = api s \<Longrightarrow> invalidated s' = invalidated s \<Longrightarrow> storage_chain s' = storage_chain s"
  by (simp add: storage_chain_def)

lemma runtime_chain_frame:
  "api s' = api s \<Longrightarrow> runtime_chain s' = runtime_chain s"
  by (simp add: runtime_chain_def)

lemma get_callbacks_updateBlockerState [simp]:
  "get_callbacks (updateBlockerState e s) = get_callbacks s"
  by (simp add: updateBlockerState_def safeSet_def storage_local_set_def safeSetTimeout_def
      setTimeout_def Let_def split: option.splits)

lemma get_callbacks_call_get_cont:
  "get_callbacks (snd (call_get_cont k r s)) = get_callbacks s @ [(k, r)]"
  by (cases k) (simp_all add: call_get_cont_def initPrefsCallback_def updateNewsBlockerState_def
      getStateCallback_def Let_def)

lemma get_callbacks_to_event_loop:
  "get_callbacks (to_event_loop r) = get_callbacks (snd r)"
  by (cases r) (simp add: to_event_loop_def split: option.splits)

lemma sample_state_available: "isChromeAPIAvailable sample_state"
  by (simp add: sample_state_def start_state_def available_api_def isChromeAPIAvailable_def)

lemma empty_store_state_available: "isChromeAPIAvailable empty_store_state"
  by (simp add: empty_store_state_def start_state_def available_api_def isChromeAPIAvailable_def)

subsection \<open>The defensive write\<close>

text \<open>
  C10. When the guard passes and the dispatch of the store write does not throw,
  \<open>safeSet\<close> returns \<open>true\<close> with the write only queued. If the host later completes
  the write with \<open>lastError\<close> set, the store is unchanged and the caller's callback is
  not called; the completion closure calls the callback only when there is no error.
\<close>

theorem safeSet_true_does_not_imply_persisted:
  assumes "isChromeAPIAvailable s" and "storage_local_set data cb s = Inr s1"
  shows "safeSet data cb s = (True, s1)
       \<and> map_of (pending_sets s1) (next_request s) = Some (data, cb)
       \<and> store (deliver_set (next_request s) (Some msg) s1) = store s
       \<and> set_callbacks (deliver_set (next_request s) (Some msg) s1) = set_callbacks s
       \<and> (\<forall>err st. set_callbacks (snd (set_completion cb err st)) \<noteq> set_callbacks st
             \<longrightarrow> err = None)"
proof -
  from assms(2) have s1: "s1 = s\<lparr> pending_sets :=
        AList.update (next_request s) (data, cb) (pending_sets s),
        next_request := Suc (next_request s) \<rparr>"
    by (auto simp: storage_local_set_def split: option.splits)
  have ret: "safeSet data cb s = (True, s1)"
    using assms by (simp add: safeSet_def)
  have pend: "map_of (pending_sets s1) (next_request s) = Some (data, cb)"
    by (simp add: s1 update_conv')
  have fail: "store (deliver_set (next_request s) (Some msg) s1) = store s
       \<and> set_callbacks (deliver_set (next_request s) (Some msg) s1) = set_callbacks s"
    using pend
    by (simp add: deliver_set_def set_completion_def to_event_loop_def s1 split: option.splits)
  have only: "\<forall>err st. set_callbacks (snd (set_completion cb err st)) \<noteq> set_callbacks st
       \<longrightarrow> err = None"
    by (auto simp: set_completion_def split: option.splits)
  from ret pend fail only show ?thesis by blast
qed

theorem safeSet_true_does_not_imply_persisted_witness:
  "isChromeAPIAvailable sample_state
   \<and> safeSet [(''feedBlockerEnabled'', JBool True)] (Some (SetCallback 0)) sample_state
       = (True, sample_state\<lparr> pending_sets :=
                   [(0, [(''feedBlockerEnabled'', JBool True)], Some (SetCallback 0))],
                  next_request := 1 \<rparr>)
   \<and> store (deliver_set 0 (Some (Some ''QUOTA_BYTES quota exceeded''))
        (sample_state\<lparr> pending_sets :=
                   [(0, [(''feedBlockerEnabled'', JBool True)], Some (SetCallback 0))],
                  next_request := 1 \<rparr>)) = [(''feedBlockerEnabled'', JBool False)]
   \<and> set_callbacks (deliver_set 0 (Some (Some ''QUOTA_BYTES quota exceeded''))
        (sample_state\<lparr> pending_sets :=
                   [(0, [(''feedBlockerEnabled'', JBool True)], Some (SetCallback 0))],
                  next_request := 1 \<rparr>)) = []"
proof -
  have b: "storage_local_set [(''feedBlockerEnabled'', JBool True)] (Some (SetCallback 0)) sample_state
     = Inr (sample_state\<lparr> pending_sets :=
               [(0, [(''feedBlockerEnabled'', JBool True)], Some (SetCallback 0))],
             next_request := 1 \<rparr>)"
    by (simp add: sample_state_def start_state_def available_api_def storage_local_set_def
        storage_chain_def)
  have c: "next_request sample_state = 0"
    "store sample_state = [(''feedBlockerEnabled'', JBool False)]"
    "set_callbacks sample_state = []"
    by (simp_all add: sample_state_def start_state_def)
  show ?thesis
    using safeSet_true_does_not_imply_persisted
            [OF sample_state_available b, of "Some ''QUOTA_BYTES quota exceeded''"]
          sample_state_available c
    by simp
qed

subsection \<open>The message listener and the initial read\<close>

text \<open>
  C4. With the runtime available, \<open>feedBlockerEnabled\<close> stored as \<open>false\<close> and no
  \<open>newsBlockerEnabled\<close> key, a \<open>getState\<close> message makes the listener return \<open>true\<close>
  without having responded yet; when the read completes, the response
  \<open>{enabled: false, newsEnabled: true}\<close> is sent on the message's channel.
\<close>

theorem getState_responds_asynchronously:
  assumes "isChromeAPIAvailable s" and "\<not> invalidated s"
    and "map_of (store s) ''feedBlockerEnabled'' = Some (JBool False)"
    and "map_of (store s) ''newsBlockerEnabled'' = None"
    and "getProp request ''action'' = JStr ''getState''"
  shows "fst (onMessage request ch s) = Inr (JBool True)
       \<and> responses (snd (onMessage request ch s)) = responses s
       \<and> responses (deliver_get (next_request s) None (snd (onMessage request ch s)))
           = responses s @ [(ch, [(''enabled'', JBool False), (''newsEnabled'', JBool True)])]"
  using assms
  by (simp add: onMessage_def safeGet_def storage_local_get_def storage_chain_def
      isChromeAPIAvailable_def deliver_get_def update_conv' get_completion_def runtime_chain_def
      call_get_cont_def getStateCallback_def to_event_loop_def prefOrDefault_def getProp_def)

theorem getState_responds_asynchronously_witness:
  "fst (onMessage [(''action'', JStr ''getState'')] 7 sample_state) = Inr (JBool True)
   \<and> responses (deliver_get 0 None (snd (onMessage [(''action'', JStr ''getState'')] 7 sample_state)))
       = [(7, [(''enabled'', JBool False), (''newsEnabled'', JBool True)])]"
proof -
  have h: "\<not> invalidated sample_state"
    "map_of (store sample_state) ''feedBlockerEnabled'' = Some (JBool False)"
    "map_of (store sample_state) ''newsBlockerEnabled'' = None"
    "getProp [(''action'', JStr ''getState'')] ''action'' = JStr ''getState''"
    by (simp_all add: sample_state_def start_state_def getProp_def)
  have c: "next_request sample_state = 0" "responses sample_state = []"
    by (simp_all add: sample_state_def start_state_def)
  show ?thesis
    using getState_responds_asynchronously [OF sample_state_available h, of 7] c by simp
qed

text \<open>
  C5. When neither key is stored, the read of the two keys yields the empty result, from
  which the initial callback derives \<open>feedEnabled = true\<close> and \<open>newsEnabled = true\<close>
  and passes them on; with the runtime available the callback is called with that empty
  result when the read completes.
\<close>

theorem initial_read_defaults:
  assumes "map_of (store s) ''feedBlockerEnabled'' = None"
    and "map_of (store s) ''newsBlockerEnabled'' = None"
  shows "storage_read [''feedBlockerEnabled'', ''newsBlockerEnabled''] (store s) = []
       \<and> prefOrDefault [] ''feedBlockerEnabled'' = JBool True
       \<and> prefOrDefault [] ''newsBlockerEnabled'' = JBool True
       \<and> initPrefsCallback [] st
           = updateNewsBlockerState (JBool True) (updateBlockerState (JBool True) st)
       \<and> (isChromeAPIAvailable s \<and> \<not> invalidated s \<longrightarrow>
            get_callbacks (deliver_get (next_request s) None
               (snd (safeGet [''feedBlockerEnabled'', ''newsBlockerEnabled''] KInitPrefs 1 s)))
             = get_callbacks s @ [(KInitPrefs, [])])"
  using assms
  by (simp add: prefOrDefault_def getProp_def initPrefsCallback_def safeGet_def
      storage_local_get_def storage_chain_def isChromeAPIAvailable_def deliver_get_def
      update_conv' get_completion_def runtime_chain_def get_callbacks_to_event_loop
      get_callbacks_call_get_cont)

theorem initial_read_defaults_witness:
  "storage_read [''feedBlockerEnabled'', ''newsBlockerEnabled''] (store empty_store_state) = []
   \<and> get_callbacks (deliver_get 0 None
        (snd (safeGet [''feedBlockerEnabled'', ''newsBlockerEnabled''] KInitPrefs 1 empty_store_state)))
       = [(KInitPrefs, [])]"
proof -
  have h: "map_of (store empty_store_state) ''feedBlockerEnabled'' = None"
    "map_of (store empty_store_state) ''newsBlockerEnabled'' = None"
    by (simp_all add: empty_store_state_def start_state_def)
  have c: "next_request empty_store_state = 0" "get_callbacks empty_store_state = []"
    "\<not> invalidated empty_store_state"
    by (simp_all add: empty_store_state_def start_state_def)
  show ?thesis
    using initial_read_defaults [OF h] empty_store_state_available c by simp
qed

subsection \<open>The defensive read\<close>

lemma safeGet_dispatch:
  "storage_chain s = None \<Longrightarrow>
   safeGet keys k r s =
     (None, s\<lparr> pending_gets := AList.update (next_request s) (keys, k, r) (pending_gets s),
               next_request := Suc (next_request s) \<rparr>)"
  by (simp add: safeGet_def storage_local_get_def)

lemma deliver_get_transient:
  assumes "map_of (pending_gets s) h = Some (keys, k, r)" and "runtime_chain s = None"
    and "0 < r" and "transient msg"
  shows "deliver_get h (Some msg) s =
     s\<lparr> pending_gets := AList.delete h (pending_gets s),
        timers := AList.update (next_timer s)
             \<lparr> timer_due = now s + 100, timer_period = None,
               timer_fn = Raw (TRetryGet keys k (r - 1)) \<rparr> (timers s),
        next_timer := Suc (next_timer s) \<rparr>"
proof -
  have r: "runtime_chain (s\<lparr> pending_gets := AList.delete h (pending_gets s) \<rparr>) = None"
    using assms(2) runtime_chain_frame [of "s\<lparr> pending_gets := AList.delete h (pending_gets s) \<rparr>" s]
    by simp
  show ?thesis
    using assms(1,3,4) r
    by (simp add: deliver_get_def get_completion_def to_event_loop_def setTimeout_def)
qed

lemma deliver_get_final:
  assumes "map_of (pending_gets s) h = Some (keys, k, 0)" and "runtime_chain s = None"
  shows "get_callbacks (deliver_get h err s)
     = get_callbacks s @ [(k, if err = None then storage_read keys (store s) else [])]"
proof -
  have r: "runtime_chain (s\<lparr> pending_gets := AList.delete h (pending_gets s) \<rparr>) = None"
    using assms(2) runtime_chain_frame [of "s\<lparr> pending_gets := AList.delete h (pending_gets s) \<rparr>" s]
    by simp
  show ?thesis
    using assms(1) r
    by (cases err)
       (simp_all add: deliver_get_def get_completion_def get_callbacks_to_event_loop
          get_callbacks_call_get_cont)
qed

lemma fire_raw_retry:
  assumes "map_of (timers s) h = Some \<lparr> timer_due = d, timer_period = None,
               timer_fn = Raw (TRetryGet keys k r) \<rparr>"
    and "d \<le> now s" and "storage_chain s = None"
  shows "fire_timer h s =
     s\<lparr> timers := AList.delete h (timers s),
        pending_gets := AList.update (next_request s) (keys, k, r) (pending_gets s),
        next_request := Suc (next_request s) \<rparr>"
proof -
  have c: "storage_chain (s\<lparr> timers := AList.delete h (timers s) \<rparr>) = None"
    using assms(3) storage_chain_frame [of "s\<lparr> timers := AList.delete h (timers s) \<rparr>" s]
    by simp
  have n: "\<not> now s < d"
    using assms(2) by simp
  show ?thesis
    using assms(1) n
    by (simp add: fire_timer_def reschedule_def run_timer_fn_def run_task_def safeGet_dispatch [OF c])
qed

lemma fire_too_early:
  "map_of (timers s) h = Some t \<Longrightarrow> now s < timer_due t \<Longrightarrow> fire_timer h s = s"
  by (simp add: fire_timer_def)

lemma storage_chain_invalidated:
  "storage_chain s = None \<Longrightarrow> api s' = api s \<Longrightarrow> invalidated s' \<Longrightarrow>
   storage_chain s' = Some (HostError ''Extension context invalidated.'')"
  by (simp add: storage_chain_def split: if_splits)

lemma safeGet_throwing:
  "storage_chain s = Some e \<Longrightarrow> safeGet keys k r s = call_get_cont k [] s"
  by (simp add: safeGet_def storage_local_get_def)

lemma run_timer_fn_Raw: "run_timer_fn h (Raw t) s = to_event_loop (run_task h t s)"
  by (simp add: run_timer_fn_def to_event_loop_def)

lemma fire_raw_retry_throwing:
  assumes "map_of (timers s) h = Some \<lparr> timer_due = d, timer_period = None,
               timer_fn = Raw (TRetryGet keys k r) \<rparr>"
    and "d \<le> now s" and "storage_chain s = Some e"
  shows "get_callbacks (fire_timer h s) = get_callbacks s @ [(k, [])]"
proof -
  define s0 where "s0 = s\<lparr> timers := AList.delete h (timers s) \<rparr>"
  have c: "storage_chain s0 = Some e"
    using assms(3) storage_chain_frame [of s0 s] by (simp add: s0_def)
  have n: "\<not> now s < d"
    using assms(2) by simp
  have "fire_timer h s = run_timer_fn h (Raw (TRetryGet keys k r)) s0"
    using assms(1) n by (simp add: fire_timer_def reschedule_def s0_def)
  also have "\<dots> = to_event_loop (call_get_cont k [] s0)"
    by (simp add: run_timer_fn_Raw run_task_def safeGet_throwing [OF c])
  finally show ?thesis
    by (simp add: get_callbacks_to_event_loop get_callbacks_call_get_cont s0_def)
qed

text \<open>
  C3. A read with the default budget of one retry, dispatched while the runtime is
  reachable: when the host completes it with a \<open>lastError\<close> whose message contains
  \<open>Extension context invalidated\<close>, no callback is called and a one-shot timer due
  100 ms later carries the retry with budget 0; the host cannot fire it earlier. After
  100 ms the timer fires and dispatches the second read; whatever its outcome, the
  callback has then been called exactly once: with the stored values when the second
  read succeeds, with the empty result when it fails again. If by then the context is
  invalidated and the second dispatch itself throws, the callback is likewise called
  exactly once, with the empty result.
\<close>

theorem safeGet_bounded_retry:
  assumes "storage_chain s = None" and "runtime_chain s = None" and "transient msg"
  shows
    "let s1 = snd (safeGet keys k 1 s);
         s2 = deliver_get (next_request s) (Some msg) s1;
         s3 = step (EvAdvance 100) s2;
         s4 = step (EvTimer (next_timer s)) s3;
         s5 = deliver_get (Suc (next_request s)) err s4;
         s4x = step (EvTimer (next_timer s)) (step (EvHost (api s) True) s3)
     in get_callbacks s1 = get_callbacks s
      \<and> get_callbacks s2 = get_callbacks s
      \<and> map_of (timers s2) (next_timer s)
           = Some \<lparr> timer_due = now s + 100, timer_period = None,
                    timer_fn = Raw (TRetryGet keys k 0) \<rparr>
      \<and> step (EvTimer (next_timer s)) s2 = s2
      \<and> get_callbacks s4 = get_callbacks s
      \<and> map_of (pending_gets s4) (Suc (next_request s)) = Some (keys, k, 0)
      \<and> get_callbacks s5
           = get_callbacks s @ [(k, if err = None then storage_read keys (store s) else [])]
      \<and> get_callbacks s4x = get_callbacks s @ [(k, [])]"
proof -
  define s1 where "s1 = s\<lparr> pending_gets := AList.update (next_request s) (keys, k, 1) (pending_gets s),
               next_request := Suc (next_request s) \<rparr>"
  define s2 where "s2 = s1\<lparr> pending_gets := AList.delete (next_request s) (pending_gets s1),
        timers := AList.update (next_timer s1)
             \<lparr> timer_due = now s1 + 100, timer_period = None,
               timer_fn = Raw (TRetryGet keys k (1 - 1)) \<rparr> (timers s1),
        next_timer := Suc (next_timer s1) \<rparr>"
  define s3 where "s3 = s2\<lparr> now := now s2 + 100 \<rparr>"
  define s4 where "s4 = s3\<lparr> timers := AList.delete (next_timer s) (timers s3),
        pending_gets := AList.update (next_request s3) (keys, k, 0) (pending_gets s3),
        next_request := Suc (next_request s3) \<rparr>"
  have a: "api s1 = api s" "api s3 = api s" "api s4 = api s" "invalidated s3 = invalidated s"
    by (simp_all add: s4_def s3_def s2_def s1_def)
  have e1: "snd (safeGet keys k 1 s) = s1"
    using assms(1) by (simp add: safeGet_dispatch s1_def)
  have p1: "map_of (pending_gets s1) (next_request s) = Some (keys, k, 1)"
    by (simp add: s1_def update_conv')
  have r1: "runtime_chain s1 = None"
    using assms(2) runtime_chain_frame [OF a(1)] by simp
  have e2: "deliver_get (next_request s) (Some msg) s1 = s2"
    unfolding s2_def by (rule deliver_get_transient [OF p1 r1 _ assms(3)]) simp
  have t2: "map_of (timers s2) (next_timer s)
      = Some \<lparr> timer_due = now s + 100, timer_period = None, timer_fn = Raw (TRetryGet keys k 0) \<rparr>"
    by (simp add: s2_def s1_def update_conv')
  have "now s2 < now s + 100"
    by (simp add: s2_def s1_def)
  then have early: "step (EvTimer (next_timer s)) s2 = s2"
    by (simp add: step_def fire_too_early [OF t2])
  have e3: "step (EvAdvance 100) s2 = s3"
    by (simp add: step_def s3_def)
  have t3: "map_of (timers s3) (next_timer s)
      = Some \<lparr> timer_due = now s + 100, timer_period = None, timer_fn = Raw (TRetryGet keys k 0) \<rparr>"
    using t2 by (simp add: s3_def)
  have c3: "storage_chain s3 = None"
    using assms(1) storage_chain_frame [OF a(2) a(4)] by simp
  have n3: "now s + 100 \<le> now s3"
    by (simp add: s3_def s2_def s1_def)
  have "fire_timer (next_timer s) s3 = s4"
    unfolding s4_def by (rule fire_raw_retry [OF t3 n3 c3])
  then have e4: "step (EvTimer (next_timer s)) s3 = s4"
    by (simp add: step_def)
  have p4: "map_of (pending_gets s4) (Suc (next_request s)) = Some (keys, k, 0)"
    by (simp add: s4_def s3_def s2_def s1_def update_conv')
  have r4: "runtime_chain s4 = None"
    using assms(2) runtime_chain_frame [OF a(3)] by simp
  have g: "get_callbacks s1 = get_callbacks s" "get_callbacks s2 = get_callbacks s"
    "get_callbacks s4 = get_callbacks s" "store s4 = store s"
    by (simp_all add: s4_def s3_def s2_def s1_def)
  have e5: "get_callbacks (deliver_get (Suc (next_request s)) err s4)
      = get_callbacks s @ [(k, if err = None then storage_read keys (store s) else [])]"
    using deliver_get_final [OF p4 r4, of err] by (simp add: g)
  define s3x where "s3x = s3\<lparr> api := api s, invalidated := True \<rparr>"
  have e3x: "step (EvHost (api s) True) s3 = s3x"
    by (simp add: step_def s3x_def)
  have t3x: "map_of (timers s3x) (next_timer s)
      = Some \<lparr> timer_due = now s + 100, timer_period = None, timer_fn = Raw (TRetryGet keys k 0) \<rparr>"
    using t3 by (simp add: s3x_def)
  have n3x: "now s + 100 \<le> now s3x"
    using n3 by (simp add: s3x_def)
  have c3x: "storage_chain s3x = Some (HostError ''Extension context invalidated.'')"
    by (rule storage_chain_invalidated [OF assms(1)]) (simp_all add: s3x_def)
  have "get_callbacks (fire_timer (next_timer s) s3x) = get_callbacks s3x @ [(k, [])]"
    by (rule fire_raw_retry_throwing [OF t3x n3x c3x])
  then have e4x: "get_callbacks (step (EvTimer (next_timer s)) s3x) = get_callbacks s @ [(k, [])]"
    by (simp add: step_def s3x_def s3_def g)
  show ?thesis
    by (simp only: Let_def e1 e2 e3 e4 e3x) (simp only: g t2 early p4 e5 e4x simp_thms)
qed


subsection \<open>Teardown\<close>

lemma clear_each_eq:
  "clear_each ids s = s\<lparr> timers := filter (\<lambda>(h, t). h \<in> set ids \<longrightarrow> h \<in> set (faulty s)) (timers s) \<rparr>"
proof (induction ids arbitrary: s)
  case Nil
  then show ?case by simp
next
  case (Cons h hs)
  show ?case
  proof (cases "h \<in> set (faulty s)")
    case True
    then show ?thesis
      by (simp add: Cons clearTimer_def)
  next
    case False
    have "filter (\<lambda>(k, t). k \<in> set hs \<longrightarrow> k \<in> set (faulty s)) (AList.delete h (timers s))
        = filter (\<lambda>(k, t). k \<in> set (h # hs) \<longrightarrow> k \<in> set (faulty s)) (timers s)"
      using False by (induction "timers s" arbitrary: s) (auto simp: AList.delete_eq intro: filter_cong)
    with False show ?thesis
      by (simp add: Cons clearTimer_def)
  qed
qed


lemma timers_clear_each:
  "timers (clear_each ids s) = filter (\<lambda>(h, t). h \<in> set ids \<longrightarrow> h \<in> set (faulty s)) (timers s)"
  by (simp add: clear_each_eq)

lemma map_of_filter_None:
  "(\<And>v. \<not> P (k, v)) \<Longrightarrow> map_of (filter P al) k = None"
  by (induction al) auto

lemma map_of_filter_keep_None:
  "map_of al k = None \<Longrightarrow> map_of (filter P al) k = None"
  by (induction al) (auto split: if_splits)

lemma timer_live_clear_each:
  "h \<in> set ids \<Longrightarrow> h \<notin> set (faulty s) \<Longrightarrow> \<not> timer_live h (clear_each ids s)"
  by (simp add: timer_live_def timers_clear_each map_of_filter_None)

lemma timer_dead_clear_each:
  "\<not> timer_live h s \<Longrightarrow> \<not> timer_live h (clear_each ids s)"
  by (simp add: timer_live_def timers_clear_each map_of_filter_keep_None)

lemma disconnect_each_frame [simp]:
  "timers (disconnect_each ids s) = timers s"
  "faulty (disconnect_each ids s) = faulty s"
  "intervals (disconnect_each ids s) = intervals s"
  "timeouts (disconnect_each ids s) = timeouts s"
  "observers (disconnect_each ids s) = observers s"
  by (induction ids arbitrary: s) (simp_all add: disconnect_def)

lemma clear_each_frame [simp]:
  "observer_objs (clear_each ids s) = observer_objs s"
  "faulty (clear_each ids s) = faulty s"
  "intervals (clear_each ids s) = intervals s"
  "timeouts (clear_each ids s) = timeouts s"
  "observers (clear_each ids s) = observers s"
  by (simp_all add: clear_each_eq)

lemma is_connected_disconnect:
  "disconnect k s = Inr s1 \<Longrightarrow> is_connected h s1 = (h \<noteq> k \<and> is_connected h s)"
  by (auto simp: disconnect_def is_connected_def map_of_map_entry split: if_splits option.splits)

lemma not_connected_disconnect_each:
  "\<not> is_connected h s \<Longrightarrow> \<not> is_connected h (disconnect_each ids s)"
proof (induction ids arbitrary: s)
  case Nil
  then show ?case by simp
next
  case (Cons k ks)
  then show ?case
    by (cases "disconnect k s") (simp_all add: is_connected_disconnect)
qed

lemma faulty_disconnect: "disconnect k s = Inr s1 \<Longrightarrow> faulty s1 = faulty s"
  by (auto simp: disconnect_def split: if_splits)

lemma is_connected_disconnect_each:
  "h \<in> set ids \<Longrightarrow> h \<notin> set (faulty s) \<Longrightarrow> \<not> is_connected h (disconnect_each ids s)"
proof (induction ids arbitrary: s)
  case Nil
  then show ?case by simp
next
  case (Cons k ks)
  show ?case
  proof (cases "disconnect k s")
    case (Inl e)
    then have "k \<in> set (faulty s)" by (auto simp: disconnect_def split: if_splits)
    with Cons.prems have "h \<in> set ks" by auto
    with Cons.IH Cons.prems Inl show ?thesis by simp
  next
    case (Inr s1)
    show ?thesis
    proof (cases "h = k")
      case True
      with Inr have "\<not> is_connected h s1" by (simp add: is_connected_disconnect)
      with Inr show ?thesis by (simp add: not_connected_disconnect_each)
    next
      case False
      with Cons.prems have "h \<in> set ks" by auto
      moreover from Inr Cons.prems have "h \<notin> set (faulty s1)" by (simp add: faulty_disconnect)
      ultimately show ?thesis using Cons.IH Inr by simp
    qed
  qed
qed

lemma cleanupResources_empty:
  "intervals s = [] \<Longrightarrow> timeouts s = [] \<Longrightarrow> observers s = [] \<Longrightarrow> cleanupResources s = s"
  by (cases s) (simp add: cleanupResources_def)

lemma cleanupResources_registries:
  "intervals (cleanupResources s) = []" "timeouts (cleanupResources s) = []"
  "observers (cleanupResources s) = []"
  by (simp_all add: cleanupResources_def Let_def)

lemma cleanupResources_timers:
  "timers (cleanupResources s)
     = filter (\<lambda>(h, t). h \<in> set (timeouts s) \<longrightarrow> h \<in> set (faulty s))
         (filter (\<lambda>(h, t). h \<in> set (intervals s) \<longrightarrow> h \<in> set (faulty s)) (timers s))"
  by (simp add: cleanupResources_def Let_def timers_clear_each)

lemma cleanupResources_timer_dead:
  assumes "h \<in> set (intervals s) \<union> set (timeouts s)" and "h \<notin> set (faulty s)"
  shows "\<not> timer_live h (cleanupResources s)"
  using assms
  by (auto simp: timer_live_def cleanupResources_timers intro!: map_of_filter_None)

lemma cleanupResources_disconnected:
  assumes "h \<in> set (observers s)" and "h \<notin> set (faulty s)"
  shows "\<not> is_connected h (cleanupResources s)"
proof -
  have "\<not> is_connected h (disconnect_each (observers s)
           ((clear_each (timeouts s) ((clear_each (intervals s) s)\<lparr>intervals := []\<rparr>))\<lparr>timeouts := []\<rparr>))"
    using assms by (intro is_connected_disconnect_each) simp_all
  then show ?thesis
    by (simp add: cleanupResources_def Let_def is_connected_def)
qed

lemma fire_dead_timer: "\<not> timer_live h s \<Longrightarrow> fire_timer h s = s"
  by (simp add: timer_live_def fire_timer_def)

lemma notify_disconnected: "\<not> is_connected h s \<Longrightarrow> step (EvMutation h) s = s"
  by (simp add: is_connected_def step_def split: option.splits)

lemma safeSetTimeout_tracked:
  "fst (safeSetTimeout t d s) \<in> set (timeouts (snd (safeSetTimeout t d s)))"
  by (simp add: safeSetTimeout_def setTimeout_def)

lemma safeSetInterval_tracked:
  "fst (safeSetInterval t d s) \<in> set (intervals (snd (safeSetInterval t d s)))"
  by (simp add: safeSetInterval_def setInterval_def)

lemma setupMutationObserver_tracked:
  "next_observer s \<in> set (observers (setupMutationObserver s))"
  by (simp add: setupMutationObserver_def safeSetInterval_def setInterval_def startObserving_def
      Let_def)

lemma calm_refl: "calm b s s"
  by (simp add: calm_def)

lemma calm_same: "qview s' = qview s \<Longrightarrow> calm b s s'"
  by (simp add: calm_def qview_def tview_def timer_live_def is_connected_def)

lemma calm_trans_gen:
  assumes "calm a s s'" and "calm b s' s''"
  shows "calm (a \<or> b) s s''"
  unfolding calm_def
proof (intro conjI allI impI ballI)
  from assms show n1: "next_timer s \<le> next_timer s''" and n2: "next_observer s \<le> next_observer s''"
    and "faulty s'' = faulty s"
    by (simp_all add: calm_def)
  from assms have m: "next_timer s \<le> next_timer s'" "next_timer s' \<le> next_timer s''"
    "next_observer s \<le> next_observer s'" "next_observer s' \<le> next_observer s''"
    by (simp_all add: calm_def)
  show "timer_live h s \<or> next_timer s \<le> h" if "timer_live h s''" for h
  proof -
    from assms(2) that have "timer_live h s' \<or> next_timer s' \<le> h" by (simp add: calm_def)
    moreover from assms(1) have "timer_live h s' \<longrightarrow> timer_live h s \<or> next_timer s \<le> h"
      by (simp add: calm_def)
    ultimately show ?thesis using m by auto
  qed
  have l: "LStartObserving h \<in> set (dcl_listeners s) \<or> next_observer s \<le> h"
    if "LStartObserving h \<in> set (dcl_listeners s')" for h
    using assms(1) that by (simp add: calm_def)
  show "LStartObserving h \<in> set (dcl_listeners s) \<or> next_observer s \<le> h"
    if "LStartObserving h \<in> set (dcl_listeners s'')" for h
  proof -
    from assms(2) that have "LStartObserving h \<in> set (dcl_listeners s') \<or> next_observer s' \<le> h"
      by (simp add: calm_def)
    with l [of h] m show ?thesis by auto
  qed
  show "is_connected h s \<or> next_observer s \<le> h
          \<or> ((a \<or> b) \<and> LStartObserving h \<in> set (dcl_listeners s))"
    if "is_connected h s''" for h
  proof -
    from assms(2) that have "is_connected h s' \<or> next_observer s' \<le> h
          \<or> (b \<and> LStartObserving h \<in> set (dcl_listeners s'))"
      by (simp add: calm_def)
    moreover from assms(1) have "is_connected h s' \<longrightarrow> is_connected h s \<or> next_observer s \<le> h
          \<or> (a \<and> LStartObserving h \<in> set (dcl_listeners s))"
      by (simp add: calm_def)
    ultimately show ?thesis using l [of h] m by auto
  qed
  show "h \<in> set (intervals s) \<union> set (timeouts s) \<or> (next_timer s \<le> h \<and> h < next_timer s'')"
    if "h \<in> set (intervals s'') \<union> set (timeouts s'')" for h
  proof -
    from assms(2) that have "h \<in> set (intervals s') \<union> set (timeouts s')
        \<or> (next_timer s' \<le> h \<and> h < next_timer s'')"
      unfolding calm_def by blast
    moreover from assms(1) have "h \<in> set (intervals s') \<union> set (timeouts s') \<longrightarrow>
        h \<in> set (intervals s) \<union> set (timeouts s) \<or> (next_timer s \<le> h \<and> h < next_timer s')"
      unfolding calm_def by blast
    ultimately show ?thesis using m by auto
  qed
  show "h \<in> set (observers s) \<or> (next_observer s \<le> h \<and> h < next_observer s'')"
    if "h \<in> set (observers s'')" for h
  proof -
    from assms(2) that have "h \<in> set (observers s')
        \<or> (next_observer s' \<le> h \<and> h < next_observer s'')"
      unfolding calm_def by blast
    moreover from assms(1) have "h \<in> set (observers s') \<longrightarrow>
        h \<in> set (observers s) \<or> (next_observer s \<le> h \<and> h < next_observer s')"
      unfolding calm_def by blast
    ultimately show ?thesis using m by auto
  qed
qed

lemma calm_trans: "calm False s s' \<Longrightarrow> calm False s' s'' \<Longrightarrow> calm False s s''"
  using calm_trans_gen [of False s s' False s''] by simp

lemma calm_weaken: "calm False s s' \<Longrightarrow> calm b s s'"
  unfolding calm_def by blast

lemma calm_inv:
  assumes "tracked_inv s" and "calm b s s'"
  shows "tracked_inv s'"
  using assms unfolding tracked_inv_def calm_def
  by (metis (no_types, lifting) order.strict_trans2)

lemma timer_live_update: "timer_live h (s\<lparr> timers := AList.update k t (timers s) \<rparr>) = (h = k \<or> timer_live h s)"
  by (simp add: timer_live_def update_conv')

lemma calm_new_timer:
  assumes "timers s' = AList.update (next_timer s) t (timers s)"
    and "next_timer s' = Suc (next_timer s)"
    and "observer_objs s' = observer_objs s" and "next_observer s' = next_observer s"
    and "dcl_listeners s' = dcl_listeners s" and "observers s' = observers s"
    and "faulty s' = faulty s"
    and "set (intervals s') \<union> set (timeouts s')
           \<subseteq> insert (next_timer s) (set (intervals s) \<union> set (timeouts s))"
  shows "calm b s s'"
  unfolding calm_def using assms
  by (auto simp: timer_live_def is_connected_def update_conv')

lemma calm_fewer_timers:
  assumes "timers s' = AList.delete k (timers s)"
    and "next_timer s' = next_timer s"
    and "observer_objs s' = observer_objs s" and "next_observer s' = next_observer s"
    and "dcl_listeners s' = dcl_listeners s" and "observers s' = observers s"
    and "faulty s' = faulty s"
    and "set (intervals s') \<union> set (timeouts s') \<subseteq> set (intervals s) \<union> set (timeouts s)"
  shows "calm b s s'"
  unfolding calm_def using assms
  by (auto simp: timer_live_def is_connected_def delete_conv')

lemma calm_disconnected:
  assumes "timers s' = timers s" and "next_timer s' = next_timer s"
    and "observer_objs s' = AList.map_entry k (\<lambda>ob. ob\<lparr>obs_connected := False\<rparr>) (observer_objs s)"
    and "next_observer s' = next_observer s"
    and "dcl_listeners s' = dcl_listeners s" and "observers s' = observers s"
    and "faulty s' = faulty s"
    and "intervals s' = intervals s" and "timeouts s' = timeouts s"
  shows "calm b s s'"
  unfolding calm_def using assms
  by (auto simp: timer_live_def is_connected_def map_of_map_entry split: option.splits if_splits)

lemma calm_obs_timeout:
  assumes "timers s' = timers s" and "next_timer s' = next_timer s"
    and "observer_objs s' = AList.map_entry k (\<lambda>ob. ob\<lparr>obs_timeout := v\<rparr>) (observer_objs s)"
    and "next_observer s' = next_observer s"
    and "dcl_listeners s' = dcl_listeners s" and "observers s' = observers s"
    and "faulty s' = faulty s"
    and "intervals s' = intervals s" and "timeouts s' = timeouts s"
  shows "calm b s s'"
  unfolding calm_def using assms
  by (auto simp: timer_live_def is_connected_def map_of_map_entry split: option.splits if_splits)

lemma calm_registry:
  "set x \<subseteq> set (intervals s) \<Longrightarrow> calm b s (s\<lparr> intervals := x \<rparr>)"
  "set y \<subseteq> set (timeouts s) \<Longrightarrow> calm b s (s\<lparr> timeouts := y \<rparr>)"
  "set z \<subseteq> set (observers s) \<Longrightarrow> calm b s (s\<lparr> observers := z \<rparr>)"
  unfolding calm_def by (auto simp: timer_live_def is_connected_def)

lemma calm_setTimeout: "calm b s (snd (setTimeout f d s))"
  by (rule calm_new_timer [where t = "\<lparr> timer_due = now s + d, timer_period = None, timer_fn = f \<rparr>"])
     (auto simp add: setTimeout_def)

lemma calm_safeSetTimeout: "calm b s (snd (safeSetTimeout t d s))"
  by (rule calm_new_timer [where t = "\<lparr> timer_due = now s + d, timer_period = None, timer_fn = SafeTimeout t \<rparr>"])
     (auto simp add: safeSetTimeout_def setTimeout_def)

lemma calm_safeSetInterval: "calm b s (snd (safeSetInterval t d s))"
  by (rule calm_new_timer [where t = "\<lparr> timer_due = now s + d, timer_period = Some d, timer_fn = SafeInterval t \<rparr>"])
     (auto simp add: safeSetInterval_def setInterval_def)

lemma calm_clearTimer: "clearTimer h s = Inr s1 \<Longrightarrow> calm b s s1"
  by (rule calm_fewer_timers [where k = h]) (auto simp: clearTimer_def split: if_splits)

lemma calm_disconnect: "disconnect h s = Inr s1 \<Longrightarrow> calm b s s1"
  by (rule calm_disconnected [where k = h]) (auto simp: disconnect_def split: if_splits)

lemma calm_clearSafeInterval: "calm False s (clearSafeInterval h s)"
proof (cases "clearTimer h s")
  case (Inl e)
  then show ?thesis by (simp add: clearSafeInterval_def calm_refl)
next
  case (Inr s1)
  have "set (remove1 h (intervals s1)) \<subseteq> set (intervals s1)" by (rule set_remove1_subset)
  from calm_trans [OF calm_clearTimer [OF Inr] calm_registry(1) [OF this]] Inr
  show ?thesis by (simp add: clearSafeInterval_def)
qed

lemma calm_clearSafeTimeout: "calm False s (clearSafeTimeout h s)"
proof (cases "clearTimer h s")
  case (Inl e)
  then show ?thesis by (simp add: clearSafeTimeout_def calm_refl)
next
  case (Inr s1)
  have "set (remove1 h (timeouts s1)) \<subseteq> set (timeouts s1)" by (rule set_remove1_subset)
  from calm_trans [OF calm_clearTimer [OF Inr] calm_registry(2) [OF this]] Inr
  show ?thesis by (simp add: clearSafeTimeout_def)
qed

lemma calm_clear_each: "calm False s (clear_each hs s)"
proof (induction hs arbitrary: s)
  case Nil
  show ?case by (simp add: calm_refl)
next
  case (Cons h hs)
  show ?case
  proof (cases "clearTimer h s")
    case (Inl e)
    with Cons show ?thesis by simp
  next
    case (Inr s1)
    from calm_trans [OF calm_clearTimer [OF Inr] Cons [of s1]] Inr show ?thesis
      by simp
  qed
qed

lemma calm_disconnect_each: "calm False s (disconnect_each hs s)"
proof (induction hs arbitrary: s)
  case Nil
  show ?case by (simp add: calm_refl)
next
  case (Cons h hs)
  show ?case
  proof (cases "disconnect h s")
    case (Inl e)
    with Cons show ?thesis by simp
  next
    case (Inr s1)
    from calm_trans [OF calm_disconnect [OF Inr] Cons [of s1]] Inr show ?thesis
      by simp
  qed
qed

lemma calm_cleanupResources: "calm False s (cleanupResources s)"
proof -
  define s1 where "s1 = (clear_each (intervals s) s)\<lparr> intervals := [] \<rparr>"
  define s2 where "s2 = (clear_each (timeouts s1) s1)\<lparr> timeouts := [] \<rparr>"
  have 1: "calm False s s1"
    unfolding s1_def by (rule calm_trans [OF calm_clear_each calm_registry(1)]) simp
  have 2: "calm False s1 s2"
    unfolding s2_def by (rule calm_trans [OF calm_clear_each calm_registry(2)]) simp
  have 3: "calm False s2 ((disconnect_each (observers s2) s2)\<lparr> observers := [] \<rparr>)"
    by (rule calm_trans [OF calm_disconnect_each calm_registry(3)]) simp
  have "cleanupResources s = (disconnect_each (observers s2) s2)\<lparr> observers := [] \<rparr>"
    by (simp add: cleanupResources_def Let_def s1_def s2_def)
  with calm_trans [OF 1 calm_trans [OF 2 3]] show ?thesis by simp
qed

lemma calm_safeSet: "calm b s (snd (safeSet d c s))"
  by (rule calm_same)
     (simp add: qview_def tview_def safeSet_def storage_local_set_def split: option.splits)

lemma calm_listener:
  "calm b s (s\<lparr> dcl_listeners := dcl_listeners s @ [LApplyChanges e] \<rparr>)"
  unfolding calm_def by (auto simp: timer_live_def is_connected_def)

lemma calm_updateBlockerState: "calm False s (updateBlockerState e s)"
proof (cases "isChromeAPIAvailable s")
  case False
  then show ?thesis by (simp add: updateBlockerState_def calm_refl)
next
  case True
  define s1 where "s1 = snd (safeSet [(''feedBlockerEnabled'', e)] None s)"
  define s2 where "s2 = (if has_body (document s1)
                  then s1\<lparr> document := applyChanges e (document s1) \<rparr> else s1)"
  define s3 where "s3 = snd (safeSetTimeout (TApplyChanges e) 100 s2)"
  have 1: "calm False s s1" unfolding s1_def by (rule calm_safeSet)
  have 2: "calm False s1 s2" unfolding s2_def by (rule calm_same) (simp add: qview_def tview_def)
  have 3: "calm False s2 s3" unfolding s3_def by (rule calm_safeSetTimeout)
  have 4: "calm False s3 (if readyState s3 \<noteq> Complete
           then s3\<lparr> dcl_listeners := dcl_listeners s3 @ [LApplyChanges e] \<rparr> else s3)"
    by (simp add: calm_listener calm_refl)
  have "updateBlockerState e s = (if readyState s3 \<noteq> Complete
           then s3\<lparr> dcl_listeners := dcl_listeners s3 @ [LApplyChanges e] \<rparr> else s3)"
    using True by (simp add: updateBlockerState_def Let_def s1_def s2_def s3_def)
  with calm_trans [OF 1 calm_trans [OF 2 calm_trans [OF 3 4]]] show ?thesis by simp
qed

lemma calm_call_get_cont: "calm False s (snd (call_get_cont k r s))"
proof -
  define s1 where "s1 = s\<lparr> get_callbacks := get_callbacks s @ [(k, r)] \<rparr>"
  have 1: "calm False s s1" unfolding s1_def by (rule calm_same) (simp add: qview_def tview_def)
  have 2: "calm False s1 (snd (call_get_cont k r s))"
  proof (cases k)
    case KInitPrefs
    then have "snd (call_get_cont k r s)
        = updateBlockerState (prefOrDefault r ''feedBlockerEnabled'') s1"
      by (simp add: call_get_cont_def initPrefsCallback_def updateNewsBlockerState_def Let_def s1_def)
    then show ?thesis by (simp add: calm_updateBlockerState)
  next
    case (KGetState ch)
    then show ?thesis
      by (intro calm_same) (simp add: call_get_cont_def getStateCallback_def Let_def s1_def qview_def tview_def)
  next
    case KReconcile
    then show ?thesis
      by (intro calm_same) (simp add: call_get_cont_def Let_def s1_def qview_def tview_def)
  next
    case KEnsureVisible
    then show ?thesis
      by (intro calm_same) (simp add: call_get_cont_def Let_def s1_def qview_def tview_def)
  qed
  from calm_trans [OF 1 2] show ?thesis .
qed

lemma calm_safeGet: "calm False s (snd (safeGet keys k r s))"
proof (cases "storage_local_get keys k r s")
  case (Inl e)
  then show ?thesis by (simp add: safeGet_def calm_call_get_cont)
next
  case (Inr s1)
  then have "qview s1 = qview s"
    by (auto simp: storage_local_get_def qview_def tview_def split: option.splits)
  with Inr show ?thesis by (simp add: safeGet_def calm_same)
qed

lemma calm_get_completion: "calm False s (snd (get_completion keys k r err res s))"
proof (cases "runtime_chain s")
  case (Some e)
  then show ?thesis by (simp add: get_completion_def calm_refl)
next
  case None
  show ?thesis
  proof (cases err)
    case noerr: None
    with None show ?thesis by (simp add: get_completion_def calm_call_get_cont)
  next
    case (Some msg)
    with None show ?thesis
      by (simp add: get_completion_def calm_call_get_cont calm_setTimeout)
  qed
qed

lemma calm_to_event_loop: "calm False s (snd r) \<Longrightarrow> calm False s (to_event_loop r)"
proof -
  assume a: "calm False s (snd r)"
  obtain e s1 where r: "r = (e, s1)" by (cases r)
  show ?thesis
  proof (cases e)
    case None
    with a r show ?thesis by (simp add: to_event_loop_def)
  next
    case (Some x)
    have "calm False s1 (s1\<lparr> uncaught := uncaught s1 @ [x] \<rparr>)"
      by (rule calm_same) (simp add: qview_def tview_def)
    with a r Some show ?thesis
      by (auto simp: to_event_loop_def intro: calm_trans)
  qed
qed

lemma calm_deliver_get: "calm False s (deliver_get h err s)"
proof (cases "map_of (pending_gets s) h")
  case None
  then show ?thesis by (simp add: deliver_get_def calm_refl)
next
  case (Some req)
  obtain keys k r where req: "req = (keys, k, r)" by (cases req)
  define s1 where "s1 = s\<lparr> pending_gets := AList.delete h (pending_gets s) \<rparr>"
  have 1: "calm False s s1" unfolding s1_def by (rule calm_same) (simp add: qview_def tview_def)
  have 2: "calm False s1 (to_event_loop (get_completion keys k r err
               (if err = None then storage_read keys (store s) else []) s1))"
    by (rule calm_to_event_loop) (rule calm_get_completion)
  from calm_trans [OF 1 2] Some req show ?thesis
    by (simp add: deliver_get_def s1_def)
qed

lemma calm_deliver_set: "calm False s (deliver_set h err s)"
proof (cases "map_of (pending_sets s) h")
  case None
  then show ?thesis by (simp add: deliver_set_def calm_refl)
next
  case (Some req)
  obtain d c where req: "req = (d, c)" by (cases req)
  define s1 where "s1 = s\<lparr> pending_sets := AList.delete h (pending_sets s),
                    store := (if err = None then storage_write d (store s) else store s) \<rparr>"
  have 1: "calm False s s1" unfolding s1_def by (rule calm_same) (simp add: qview_def tview_def)
  have "qview (snd (set_completion c err s1)) = qview s1"
    by (simp add: set_completion_def qview_def tview_def split: option.splits)
  then have 2: "calm False s1 (to_event_loop (set_completion c err s1))"
    by (intro calm_to_event_loop calm_same)
  from calm_trans [OF 1 2] Some req show ?thesis
    by (simp add: deliver_set_def s1_def)
qed

lemma calm_clickHandler: "calm False s (clickHandler s)"
proof (cases "isChromeAPIAvailable s")
  case False
  then show ?thesis by (simp add: clickHandler_def calm_same qview_def tview_def)
next
  case True
  then show ?thesis by (simp add: clickHandler_def calm_safeSetTimeout)
qed

lemma calm_onMessage: "calm False s (snd (onMessage req ch s))"
proof -
  have a: "calm False s (send_response ch p (updateBlockerState e s))" for p e
  proof -
    have "calm False (updateBlockerState e s) (send_response ch p (updateBlockerState e s))"
      by (rule calm_same) (simp add: send_response_def qview_def tview_def)
    from calm_trans [OF calm_updateBlockerState this] show ?thesis .
  qed
  have b: "calm False s (snd (case safeGet keys k r s of
           (Some e, s1) \<Rightarrow> (Inl e, s1)
         | (None, s1) \<Rightarrow> (Inr (JBool True), s1)))" for keys k r
    using calm_safeGet [of s keys k r]
    by (cases "safeGet keys k r s") (auto split: option.splits)
  show ?thesis
    using a b by (simp add: onMessage_def updateNewsBlockerState_def calm_refl)
qed

lemma calm_set_obs_timeout: "calm b s (set_obs_timeout obs v s)"
  by (rule calm_obs_timeout [where k = obs and v = v]) (simp_all add: set_obs_timeout_def)

lemma calm_run_task: "calm False s (snd (run_task self t s))"
proof (cases t)
  case (TRetryGet keys k r)
  then show ?thesis by (simp add: run_task_def calm_safeGet)
next
  case (TApplyChanges e)
  then show ?thesis by (simp add: run_task_def calm_same qview_def tview_def)
next
  case (TReconcile obs)
  from calm_trans [OF calm_set_obs_timeout calm_safeGet] TReconcile
  show ?thesis by (simp add: run_task_def)
next
  case TClickCheck
  then show ?thesis by (simp add: run_task_def calm_safeGet)
next
  case TVisibilityCheck
  show ?thesis
  proof (cases "isChromeAPIAvailable s")
    case False
    with TVisibilityCheck show ?thesis by (simp add: run_task_def calm_clearSafeInterval)
  next
    case True
    obtain e s1 where g: "safeGet [''feedBlockerEnabled''] KEnsureVisible 1 s = (e, s1)"
      by (cases "safeGet [''feedBlockerEnabled''] KEnsureVisible 1 s")
    with calm_safeGet [of s "[''feedBlockerEnabled'']" KEnsureVisible 1]
    have 1: "calm False s s1" by simp
    from calm_trans [OF 1 calm_clearSafeInterval] have 2: "calm False s (clearSafeInterval self s1)" .
    from TVisibilityCheck True g 1 2 show ?thesis
      by (cases e) (simp_all add: run_task_def)
  qed
qed

lemma calm_run_timer_fn: "calm False s (run_timer_fn h f s)"
proof (cases f)
  case (Raw t)
  have "calm False s (snd (run_task h t s))" by (rule calm_run_task)
  then have "calm False s (to_event_loop (run_task h t s))" by (rule calm_to_event_loop)
  with Raw show ?thesis
    by (simp add: run_timer_fn_def to_event_loop_def split: prod.splits option.splits)
next
  case (SafeTimeout t)
  have "set (remove1 h (timeouts s)) \<subseteq> set (timeouts s)" by (rule set_remove1_subset)
  from calm_registry(2) [OF this]
  have 1: "calm False s (s\<lparr> timeouts := remove1 h (timeouts s) \<rparr>)" .
  from calm_trans [OF 1 calm_run_task] SafeTimeout show ?thesis by (simp add: run_timer_fn_def)
next
  case (SafeInterval t)
  show ?thesis
  proof (cases "isChromeAPIAvailable s")
    case False
    with SafeInterval show ?thesis by (simp add: run_timer_fn_def calm_clearSafeInterval)
  next
    case True
    obtain e s1 where g: "run_task h t s = (e, s1)" by (cases "run_task h t s")
    with calm_run_task [of s h t] have 1: "calm False s s1" by simp
    from calm_trans [OF 1 calm_clearSafeInterval] have 2: "calm False s (clearSafeInterval h s1)" .
    from SafeInterval True g 1 2 show ?thesis
      by (cases e) (simp_all add: run_timer_fn_def)
  qed
qed

lemma calm_reschedule:
  assumes "map_of (timers s) h = Some t"
  shows "calm False s (reschedule h t s)"
proof (cases "timer_period t")
  case None
  then show ?thesis
    by (intro calm_fewer_timers [where k = h]) (simp_all add: reschedule_def)
next
  case (Some p)
  have "calm False s (s\<lparr> timers := AList.update h (t\<lparr> timer_due := now s + p \<rparr>) (timers s) \<rparr>)"
    unfolding calm_def using assms
    by (auto simp: timer_live_def is_connected_def update_conv')
  with Some show ?thesis by (simp add: reschedule_def)
qed

lemma calm_fire_timer: "calm False s (fire_timer h s)"
proof (cases "map_of (timers s) h")
  case None
  then show ?thesis by (simp add: fire_timer_def calm_refl)
next
  case (Some t)
  from calm_trans [OF calm_reschedule [OF Some] calm_run_timer_fn] Some
  show ?thesis by (simp add: fire_timer_def calm_refl)
qed

lemma calm_observerCallback: "calm False s (observerCallback obs s)"
proof (cases "isChromeAPIAvailable s")
  case False
  show ?thesis
  proof (cases "disconnect obs s")
    case (Inl e)
    with False show ?thesis by (simp add: observerCallback_def calm_refl)
  next
    case (Inr s1)
    have "set (remove1 obs (observers s1)) \<subseteq> set (observers s1)" by (rule set_remove1_subset)
    from calm_trans [OF calm_disconnect [OF Inr] calm_registry(3) [OF this]] False Inr
    show ?thesis by (simp add: observerCallback_def)
  qed
next
  case True
  obtain h s1 where t: "safeSetTimeout (TReconcile obs) 200 s = (h, s1)"
    by (cases "safeSetTimeout (TReconcile obs) 200 s")
  with calm_safeSetTimeout [of False s "TReconcile obs" 200] have "calm False s s1" by simp
  from calm_trans [OF this calm_set_obs_timeout]
  have "calm False s (set_obs_timeout obs (Some h) s1)" .
  with True t show ?thesis
    by (simp add: observerCallback_def calm_refl)
qed

lemma calm_setupMutationObserver: "calm False s (setupMutationObserver s)"
proof -
  define obs where "obs = next_observer s"
  define s1 where "s1 = s\<lparr> observer_objs := AList.update obs
                     \<lparr> obs_connected = False, obs_timeout = None \<rparr> (observer_objs s),
                   next_observer := Suc obs \<rparr>"
  define s2 where "s2 = s1\<lparr> observers := observers s1 @ [obs] \<rparr>"
  define s3 where "s3 = startObserving obs s2"
  define s4 where "s4 = s3\<lparr> dcl_listeners := dcl_listeners s3 @ [LStartObserving obs],
                   click_listener := True \<rparr>"
  have c: "is_connected h s4 \<longrightarrow> is_connected h s \<or> h = obs" for h
    by (auto simp: s4_def s3_def s2_def s1_def startObserving_def is_connected_def
        map_of_map_entry update_conv' split: option.splits if_splits)
  have f: "timers s4 = timers s" "next_timer s4 = next_timer s" "next_observer s4 = Suc obs"
    "dcl_listeners s4 = dcl_listeners s @ [LStartObserving obs]"
    "intervals s4 = intervals s" "timeouts s4 = timeouts s" "observers s4 = observers s @ [obs]"
    "faulty s4 = faulty s"
    by (simp_all add: s4_def s3_def s2_def s1_def startObserving_def)
  have 1: "calm False s s4"
    unfolding calm_def using c f by (auto simp: timer_live_def obs_def)
  have "setupMutationObserver s = snd (safeSetInterval TVisibilityCheck 1000 s4)"
    by (simp add: setupMutationObserver_def Let_def obs_def s1_def s2_def s3_def s4_def)
  with calm_trans [OF 1 calm_safeSetInterval] show ?thesis by simp
qed

lemma run_dcl_frame:
  "timers (run_dcl l s) = timers s" "next_timer (run_dcl l s) = next_timer s"
  "next_observer (run_dcl l s) = next_observer s" "dcl_listeners (run_dcl l s) = dcl_listeners s"
  "intervals (run_dcl l s) = intervals s" "timeouts (run_dcl l s) = timeouts s"
  "observers (run_dcl l s) = observers s" "faulty (run_dcl l s) = faulty s"
  by (cases l; simp add: run_dcl_def startObserving_def)+

lemma fold_run_dcl_frame:
  "timers (fold run_dcl ls s) = timers s" "next_timer (fold run_dcl ls s) = next_timer s"
  "next_observer (fold run_dcl ls s) = next_observer s"
  "dcl_listeners (fold run_dcl ls s) = dcl_listeners s"
  "intervals (fold run_dcl ls s) = intervals s" "timeouts (fold run_dcl ls s) = timeouts s"
  "observers (fold run_dcl ls s) = observers s" "faulty (fold run_dcl ls s) = faulty s"
  by (induction ls arbitrary: s; simp add: run_dcl_frame)+

lemma is_connected_run_dcl:
  "is_connected h (run_dcl l s) \<Longrightarrow> is_connected h s \<or> l = LStartObserving h"
  by (cases l)
     (auto simp: run_dcl_def startObserving_def is_connected_def map_of_map_entry
        split: option.splits if_splits)

lemma is_connected_fold_run_dcl:
  "is_connected h (fold run_dcl ls s) \<Longrightarrow> is_connected h s \<or> LStartObserving h \<in> set ls"
proof (induction ls arbitrary: s)
  case Nil
  then show ?case by simp
next
  case (Cons l ls)
  from Cons.IH [of "run_dcl l s"] Cons.prems
  have "is_connected h (run_dcl l s) \<or> LStartObserving h \<in> set ls" by simp
  with is_connected_run_dcl [of h l s] show ?case by auto
qed

lemma calm_DOMContentLoaded: "calm True s (step EvDOMContentLoaded s)"
proof -
  define s0 where "s0 = s\<lparr> readyState := Interactive, dcl_listeners := [] \<rparr>"
  have e: "step EvDOMContentLoaded s = fold run_dcl (dcl_listeners s) s0"
    by (simp add: step_def s0_def)
  have c: "is_connected h (fold run_dcl (dcl_listeners s) s0) \<longrightarrow>
      is_connected h s \<or> LStartObserving h \<in> set (dcl_listeners s)" for h
    using is_connected_fold_run_dcl [of h "dcl_listeners s" s0]
    by (auto simp: s0_def is_connected_def)
  show ?thesis
    unfolding e calm_def using c
    by (auto simp: fold_run_dcl_frame timer_live_def s0_def)
qed

lemma calm_step: "calm (ev = EvDOMContentLoaded) s (step ev s)"
proof (cases ev)
  case (EvTimer h)
  then show ?thesis by (simp add: step_def calm_fire_timer)
next
  case (EvGetDone h err)
  then show ?thesis by (simp add: step_def calm_deliver_get)
next
  case (EvSetDone h err)
  then show ?thesis by (simp add: step_def calm_deliver_set)
next
  case (EvMutation obs)
  then show ?thesis
    by (simp add: step_def calm_observerCallback calm_refl split: option.splits)
next
  case (EvMessage req ch)
  obtain r s1 where m: "onMessage req ch s = (r, s1)" by (cases "onMessage req ch s")
  with calm_onMessage [of s req ch] have 1: "calm False s s1" by simp
  have 2: "calm False s1 (s1\<lparr> uncaught := uncaught s1 @ [e] \<rparr>)" for e
    by (rule calm_same) (simp add: qview_def tview_def)
  from 1 calm_trans [OF 1 2] EvMessage m
  show ?thesis by (cases r) (simp_all add: step_def)
next
  case EvClick
  then show ?thesis by (simp add: step_def calm_clickHandler calm_refl)
next
  case EvDOMContentLoaded
  then show ?thesis by (simp add: calm_DOMContentLoaded)
next
  case EvUnload
  then show ?thesis by (simp add: step_def calm_cleanupResources)
next
  case EvSetupObserver
  then show ?thesis by (simp add: step_def calm_setupMutationObserver)
next
  case (EvHost a i)
  then show ?thesis by (simp add: step_def calm_same qview_def tview_def)
next
  case (EvAdvance d)
  then show ?thesis by (simp add: step_def calm_same qview_def tview_def)
next
  case (EvPage d)
  then show ?thesis by (simp add: step_def calm_same qview_def tview_def)
qed

lemma calm_run: "calm (EvDOMContentLoaded \<in> set evs) s (run evs s)"
proof (induction evs arbitrary: s)
  case Nil
  show ?case by (simp add: calm_refl)
next
  case (Cons ev evs)
  from calm_trans_gen [OF calm_step [of ev s] Cons [of "step ev s"]]
  show ?case by (simp add: eq_commute)
qed

lemma tracked_inv_run: "tracked_inv s \<Longrightarrow> tracked_inv (run evs s)"
  using calm_inv [OF _ calm_run] by blast

lemma tracked_inv_start: "tracked_inv ((start_state a st d)\<lparr> faulty := fl \<rparr>)"
  by (simp add: tracked_inv_def start_state_def)

lemma faulty_run: "faulty (run evs s) = faulty s"
  using calm_run [of evs s] by (simp add: calm_def)

lemma never_live_again:
  assumes "\<not> timer_live h s" and "h < next_timer s"
  shows "\<not> timer_live h (run evs s)"
  using calm_run [of evs s] assms unfolding calm_def by (metis leD)

lemma never_connected_again:
  assumes "\<not> is_connected h s" and "h < next_observer s"
    and "LStartObserving h \<notin> set (dcl_listeners s) \<or> EvDOMContentLoaded \<notin> set evs"
  shows "\<not> is_connected h (run evs s)"
  using calm_run [of evs s] assms unfolding calm_def by (metis leD)

lemma disconnect_each_counters:
  "next_timer (disconnect_each ids s) = next_timer s"
  "next_observer (disconnect_each ids s) = next_observer s"
  "dcl_listeners (disconnect_each ids s) = dcl_listeners s"
  by (induction ids arbitrary: s) (simp_all add: disconnect_def)

lemma cleanupResources_frame:
  "next_timer (cleanupResources s) = next_timer s"
  "next_observer (cleanupResources s) = next_observer s"
  "dcl_listeners (cleanupResources s) = dcl_listeners s"
  by (simp_all add: cleanupResources_def Let_def disconnect_each_counters clear_each_eq)

text \<open>
  C6. Every timer made by \<open>safeSetTimeout\<close> or \<open>safeSetInterval\<close> and every observer
  made by \<open>setupMutationObserver\<close> is entered in its registry. In any state, whatever
  has been created before: after \<open>cleanupResources\<close> the three registries are empty;
  every handle that was in \<open>intervals\<close> or \<open>timeouts\<close> and
  whose cancellation does not fail is no longer a live timer, so the host firing it does
  nothing; every observer that was in \<open>observers\<close> and whose \<open>disconnect\<close> does not fail
  is disconnected, so a notification for it does nothing; a failing cancellation affects
  only its own handle; and a second \<open>cleanupResources\<close> changes nothing.
  In every state the script reaches from its start, whichever handles the host fails to
  cancel, and for every sequence of events that follows the teardown: a tracked timer
  whose cancellation did not fail is never live again, so it never fires; a tracked
  observer whose \<open>disconnect\<close> did not fail stays disconnected, so it never notifies,
  provided that its one-shot \<open>DOMContentLoaded\<close> listener is no longer registered at the
  teardown or that no \<open>DOMContentLoaded\<close> event follows. \<open>cleanupResources\<close> does not
  remove that listener; what happens when it runs after the teardown is not part of this
  property.
\<close>

theorem cleanupResources_releases_tracked:
  "intervals (cleanupResources s) = [] \<and> timeouts (cleanupResources s) = []
   \<and> observers (cleanupResources s) = []
   \<and> (\<forall>h \<in> set (intervals s) \<union> set (timeouts s). h \<notin> set (faulty s) \<longrightarrow>
         \<not> timer_live h (cleanupResources s)
         \<and> step (EvTimer h) (cleanupResources s) = cleanupResources s)
   \<and> (\<forall>h \<in> set (observers s). h \<notin> set (faulty s) \<longrightarrow>
         \<not> is_connected h (cleanupResources s)
         \<and> step (EvMutation h) (cleanupResources s) = cleanupResources s)
   \<and> cleanupResources (cleanupResources s) = cleanupResources s
   \<and> fst (safeSetTimeout t d s) \<in> set (timeouts (snd (safeSetTimeout t d s)))
   \<and> fst (safeSetInterval t d s) \<in> set (intervals (snd (safeSetInterval t d s)))
   \<and> next_observer s \<in> set (observers (setupMutationObserver s))
   \<and> (let r = run evs0 ((start_state a st doc)\<lparr> faulty := fl \<rparr>);
          c = cleanupResources r
      in (\<forall>h \<in> set (intervals r) \<union> set (timeouts r). h \<notin> set fl \<longrightarrow>
            (\<forall>evs. \<not> timer_live h (run evs c) \<and> step (EvTimer h) (run evs c) = run evs c))
         \<and> (\<forall>h \<in> set (observers r). h \<notin> set fl \<longrightarrow>
            (\<forall>evs. LStartObserving h \<notin> set (dcl_listeners r) \<or> EvDOMContentLoaded \<notin> set evs \<longrightarrow>
               \<not> is_connected h (run evs c) \<and> step (EvMutation h) (run evs c) = run evs c)))"
proof -
  have t: "\<not> timer_live h (cleanupResources s) \<and> step (EvTimer h) (cleanupResources s) = cleanupResources s"
    if "h \<in> set (intervals s) \<union> set (timeouts s)" "h \<notin> set (faulty s)" for h
    using cleanupResources_timer_dead [OF that] by (simp add: step_def fire_dead_timer)
  have ob: "\<not> is_connected h (cleanupResources s) \<and> step (EvMutation h) (cleanupResources s) = cleanupResources s"
    if "h \<in> set (observers s)" "h \<notin> set (faulty s)" for h
    using cleanupResources_disconnected [OF that] by (simp add: notify_disconnected)
  have again: "cleanupResources (cleanupResources s) = cleanupResources s"
    by (rule cleanupResources_empty) (rule cleanupResources_registries)+
  define r where "r = run evs0 ((start_state a st doc)\<lparr> faulty := fl \<rparr>)"
  define c where "c = cleanupResources r"
  have inv: "tracked_inv r"
    unfolding r_def by (rule tracked_inv_run [OF tracked_inv_start])
  have fl: "faulty r = fl"
    by (simp add: r_def faulty_run)
  have t2: "\<not> timer_live h (run evs c) \<and> step (EvTimer h) (run evs c) = run evs c"
    if "h \<in> set (intervals r) \<union> set (timeouts r)" "h \<notin> set fl" for h evs
  proof -
    from that fl have "\<not> timer_live h c"
      unfolding c_def by (intro cleanupResources_timer_dead) simp_all
    moreover from inv that(1) have "h < next_timer c"
      unfolding tracked_inv_def c_def cleanupResources_frame by blast
    ultimately have "\<not> timer_live h (run evs c)" by (rule never_live_again)
    then show ?thesis by (simp add: step_def fire_dead_timer)
  qed
  have ob2: "\<not> is_connected h (run evs c) \<and> step (EvMutation h) (run evs c) = run evs c"
    if "h \<in> set (observers r)" "h \<notin> set fl"
      "LStartObserving h \<notin> set (dcl_listeners r) \<or> EvDOMContentLoaded \<notin> set evs" for h evs
  proof -
    from that fl have "\<not> is_connected h c"
      unfolding c_def by (intro cleanupResources_disconnected) simp_all
    moreover from inv that(1) have "h < next_observer c"
      unfolding tracked_inv_def c_def cleanupResources_frame by blast
    moreover from that(3)
    have "LStartObserving h \<notin> set (dcl_listeners c) \<or> EvDOMContentLoaded \<notin> set evs"
      by (simp add: c_def cleanupResources_frame)
    ultimately have "\<not> is_connected h (run evs c)" by (rule never_connected_again)
    then show ?thesis by (simp add: notify_disconnected)
  qed
  have fut: "(\<forall>h \<in> set (intervals r) \<union> set (timeouts r). h \<notin> set fl \<longrightarrow>
            (\<forall>evs. \<not> timer_live h (run evs c) \<and> step (EvTimer h) (run evs c) = run evs c))
         \<and> (\<forall>h \<in> set (observers r). h \<notin> set fl \<longrightarrow>
            (\<forall>evs. LStartObserving h \<notin> set (dcl_listeners r) \<or> EvDOMContentLoaded \<notin> set evs \<longrightarrow>
               \<not> is_connected h (run evs c) \<and> step (EvMutation h) (run evs c) = run evs c))"
    using t2 ob2 by blast
  from t ob again fut show ?thesis
    unfolding Let_def r_def [symmetric] c_def [symmetric]
    by (simp add: cleanupResources_registries safeSetTimeout_tracked safeSetInterval_tracked
        setupMutationObserver_tracked del: Un_iff)
qed

subsection \<open>Idempotence of the feed policy\<close>

lemma update_first_idem:
  "(\<And>x. P x \<Longrightarrow> P (f x)) \<Longrightarrow> (\<And>x. P x \<Longrightarrow> f (f x) = f x) \<Longrightarrow>
   update_first P f (update_first P f xs) = update_first P f xs"
  by (induction xs) auto

lemma update_first_map_commute:
  "(\<And>x. P (g x) = P x) \<Longrightarrow> (\<And>x. f (g x) = g (f x)) \<Longrightarrow>
   update_first P f (map g xs) = map g (update_first P f xs)"
  by (induction xs) auto

lemma update_first_commute:
  "(\<And>x. P (h x) = P x) \<Longrightarrow> (\<And>x. Q (f x) = Q x) \<Longrightarrow> (\<And>x. f (h x) = h (f x)) \<Longrightarrow>
   update_first P f (update_first Q h xs) = update_first Q h (update_first P f xs)"
  by (induction xs) auto

lemma map_update_first_twice:
  "(\<And>x. P (g x) = P x) \<Longrightarrow> (\<And>x. P (f x) = P x) \<Longrightarrow>
   (\<And>x. g (f (g (f x))) = g (f x)) \<Longrightarrow> (\<And>x. g (g x) = g x) \<Longrightarrow>
   map g (update_first P f (map g (update_first P f xs))) = map g (update_first P f xs)"
  by (induction xs) auto

lemma update_first_map_twice:
  "(\<And>x. P (g x) = P x) \<Longrightarrow> (\<And>x. P (f x) = P x) \<Longrightarrow>
   (\<And>x. f (g (f (g x))) = f (g x)) \<Longrightarrow> (\<And>x. g (g x) = g x) \<Longrightarrow>
   update_first P f (map g (update_first P f (map g xs))) = update_first P f (map g xs)"
  by (induction xs) auto

lemma set_update_first_pred:
  "(\<And>x. Q (f x) = Q x) \<Longrightarrow> (\<exists>x \<in> set (update_first P f xs). Q x) = (\<exists>x \<in> set xs. Q x)"
  by (induction xs) auto

lemma hide_feed_element_eq:
  "hide_feed_element el =
     el\<lparr> display := ''none'', attributes := AList.update hidden_marker ''true'' (attributes el) \<rparr>"
  by (simp add: hide_feed_element_def safeManipulateElement_def no_actions_def setAttribute_def)

lemma show_feed_element_eq:
  "show_feed_element el =
     el\<lparr> display := [], visibility := ''visible'', opacity := ''1'',
         attributes := AList.delete hidden_marker (attributes el) \<rparr>"
  by (simp add: show_feed_element_def safeManipulateElement_def no_actions_def removeAttribute_def
      hidden_marker_def)

lemma body_feed_classes_eq:
  "body_feed_classes e b =
     b\<lparr> classList :=
          (if e then removeAll ''feed-blocker-disabled''
                      (if ''feed-blocker-active'' \<in> set (classList b) then classList b
                       else classList b @ [''feed-blocker-active''])
           else removeAll ''feed-blocker-active''
                      (if ''feed-blocker-disabled'' \<in> set (classList b) then classList b
                       else classList b @ [''feed-blocker-disabled''])) \<rparr>"
  by (simp add: body_feed_classes_def classList_add_def classList_remove_def)

lemma update_update_same: "AList.update k v (AList.update k v al) = AList.update k v al"
  by (induction al) auto

lemma delete_delete_same: "AList.delete k (AList.delete k al) = AList.delete k al"
  by (simp add: AList.delete_eq)

lemma set_display_eq: "set_display v el = el\<lparr> display := v \<rparr>"
  by (simp add: set_display_def safeManipulateElement_def no_actions_def)

lemmas el_eqs = hide_feed_element_eq show_feed_element_eq body_feed_classes_eq set_display_eq
  hasAttribute_def

lemma set_display_fun:
  "(\<lambda>el. safeManipulateElement el (no_actions\<lparr> a_display := Some v \<rparr>)) = set_display v"
  by (rule ext) (simp add: set_display_def)

lemma feed_rule_fun:
  "(\<lambda>el. if matchesFeed el then (if en then hide_feed_element el else show_feed_element el) else el)
     = feed_rule en"
  by (rule ext) (simp add: feed_rule_def)

lemma applyChanges_alt:
  "applyChanges e d =
     (if \<not> has_body d then d
      else map (feed_rule (truthy e))
            (update_first (\<lambda>el. el_id el = ''feed-replacement'') (set_display (if truthy e then ''flex'' else ''none''))
              (update_first isBody (body_feed_classes (truthy e)) d)))"
  by (simp add: applyChanges_def on_body_def on_element_by_id_def set_display_fun feed_rule_fun Let_def)

lemma body_feed_classes_frame [simp]:
  "isBody (body_feed_classes e x) = isBody x"
  "el_id (body_feed_classes e x) = el_id x"
  "matchesFeed (body_feed_classes e x) = matchesFeed x"
  "attributes (body_feed_classes e x) = attributes x"
  "display (body_feed_classes e x) = display x"
  by (simp_all add: el_eqs)

lemma set_display_frame [simp]:
  "isBody (set_display v x) = isBody x"
  "el_id (set_display v x) = el_id x"
  "matchesFeed (set_display v x) = matchesFeed x"
  "attributes (set_display v x) = attributes x"
  by (simp_all add: el_eqs)

lemma feed_rule_frame [simp]:
  "isBody (feed_rule e x) = isBody x"
  "el_id (feed_rule e x) = el_id x"
  "matchesFeed (feed_rule e x) = matchesFeed x"
  by (simp_all add: el_eqs feed_rule_def)

lemma body_feed_classes_idem: "body_feed_classes e (body_feed_classes e x) = body_feed_classes e x"
  by (simp add: el_eqs)

lemma body_feed_classes_set_display:
  "body_feed_classes e (set_display v x) = set_display v (body_feed_classes e x)"
  by (simp add: el_eqs)

lemma body_feed_classes_feed_rule:
  "body_feed_classes e (feed_rule b x) = feed_rule b (body_feed_classes e x)"
  by (simp add: el_eqs feed_rule_def)

lemma feed_rule_idem: "feed_rule b (feed_rule b x) = feed_rule b x"
  by (simp add: el_eqs feed_rule_def update_update_same delete_delete_same)

lemma feed_rule_set_display:
  "feed_rule b (set_display v (feed_rule b (set_display v x))) = feed_rule b (set_display v x)"
  by (simp add: el_eqs feed_rule_def set_display_def update_update_same delete_delete_same)

lemma has_body_stage:
  "has_body (map (feed_rule b) (update_first P (set_display v) (update_first isBody (body_feed_classes e) d)))
     = has_body d"
  by (simp add: has_body_def set_update_first_pred)

lemma applyChanges_idem: "applyChanges e (applyChanges e d) = applyChanges e d"
proof (cases "has_body d")
  case False
  then show ?thesis by (simp add: applyChanges_alt)
next
  case True
  let ?B = "update_first isBody (body_feed_classes (truthy e))"
  let ?R = "update_first (\<lambda>el. el_id el = ''feed-replacement'') (set_display (if truthy e then ''flex'' else ''none''))"
  let ?M = "map (feed_rule (truthy e))"
  have 1: "?B (?M xs) = ?M (?B xs)" for xs
    by (rule update_first_map_commute) (simp_all add: body_feed_classes_feed_rule)
  have 2: "?B (?R xs) = ?R (?B xs)" for xs
    by (rule update_first_commute) (simp_all add: body_feed_classes_set_display)
  have 3: "?B (?B xs) = ?B xs" for xs
    by (rule update_first_idem) (simp_all add: body_feed_classes_idem)
  have 4: "?M (?R (?M (?R xs))) = ?M (?R xs)" for xs
    by (rule map_update_first_twice) (simp_all add: feed_rule_set_display feed_rule_idem)
  have "applyChanges e (applyChanges e d) = ?M (?R (?B (?M (?R (?B d)))))"
    using True has_body_stage [of "truthy e" _ _ "truthy e" d]
    by (simp add: applyChanges_alt)
  also have "\<dots> = ?M (?R (?M (?R (?B (?B d)))))"
    by (simp only: 1 2)
  also have "\<dots> = ?M (?R (?B d))"
    by (simp only: 3 4)
  also have "\<dots> = applyChanges e d"
    using True by (simp add: applyChanges_alt)
  finally show ?thesis .
qed


lemma reconcile_rule_fun:
  "(\<lambda>el. if matchesFeed el \<and> \<not> hasAttribute hidden_marker el then hide_feed_element el else el)
     = reconcile_rule True"
  "(\<lambda>el. if matchesFeed el \<and> hasAttribute hidden_marker el then show_feed_element el else el)
     = reconcile_rule False"
  by (rule ext, simp add: reconcile_rule_def)+

lemma reconcile_feed_alt:
  "reconcile_feed b d =
     (if \<not> has_body d then d
      else update_first (\<lambda>el. el_id el = ''feed-replacement'') (set_display (if b then ''flex'' else ''none''))
             (map (reconcile_rule b) (update_first isBody (body_feed_classes b) d)))"
  by (simp add: reconcile_feed_def on_body_def on_element_by_id_def set_display_fun reconcile_rule_fun)

lemma reconcile_rule_frame [simp]:
  "isBody (reconcile_rule e x) = isBody x"
  "el_id (reconcile_rule e x) = el_id x"
  "matchesFeed (reconcile_rule e x) = matchesFeed x"
  by (simp_all add: el_eqs reconcile_rule_def)

lemma hasAttribute_hide [simp]: "hasAttribute hidden_marker (hide_feed_element x)"
  by (simp add: el_eqs update_conv')

lemma hasAttribute_show [simp]: "\<not> hasAttribute hidden_marker (show_feed_element x)"
  by (simp add: el_eqs delete_conv')

lemma hasAttribute_set_display [simp]: "hasAttribute n (set_display v x) = hasAttribute n x"
  by (simp add: hasAttribute_def)

lemma hasAttribute_body_feed_classes [simp]: "hasAttribute n (body_feed_classes e x) = hasAttribute n x"
  by (simp add: hasAttribute_def)

lemma matchesFeed_hide_show [simp]:
  "matchesFeed (hide_feed_element x) = matchesFeed x"
  "matchesFeed (show_feed_element x) = matchesFeed x"
  by (simp_all add: el_eqs)

lemma reconcile_rule_idem: "reconcile_rule b (reconcile_rule b x) = reconcile_rule b x"
  by (simp add: reconcile_rule_def)

lemma set_display_idem: "set_display v (set_display v x) = set_display v x"
  by (simp add: el_eqs)

lemma reconcile_rule_set_display_fix:
  "reconcile_rule b (set_display v (reconcile_rule b x)) = set_display v (reconcile_rule b x)"
  by (simp add: reconcile_rule_def)

lemma set_display_reconcile_rule:
  "set_display v (reconcile_rule b (set_display v (reconcile_rule b x))) = set_display v (reconcile_rule b x)"
  by (simp add: reconcile_rule_set_display_fix set_display_idem)

lemma body_feed_classes_hide_show:
  "body_feed_classes e (hide_feed_element x) = hide_feed_element (body_feed_classes e x)"
  "body_feed_classes e (show_feed_element x) = show_feed_element (body_feed_classes e x)"
  by (simp_all add: el_eqs)

lemma body_feed_classes_reconcile_rule:
  "body_feed_classes e (reconcile_rule b x) = reconcile_rule b (body_feed_classes e x)"
  by (simp add: reconcile_rule_def body_feed_classes_hide_show)

lemma has_body_stage2:
  "has_body (update_first P (set_display v) (map (reconcile_rule b) (update_first isBody (body_feed_classes e) d)))
     = has_body d"
  by (simp add: has_body_def set_update_first_pred)

lemma reconcile_feed_idem: "reconcile_feed b (reconcile_feed b d) = reconcile_feed b d"
proof (cases "has_body d")
  case False
  then show ?thesis by (simp add: reconcile_feed_alt)
next
  case True
  let ?B = "update_first isBody (body_feed_classes b)"
  let ?R = "update_first (\<lambda>el. el_id el = ''feed-replacement'') (set_display (if b then ''flex'' else ''none''))"
  let ?M = "map (reconcile_rule b)"
  have 1: "?B (?M xs) = ?M (?B xs)" for xs
    by (rule update_first_map_commute) (simp_all add: body_feed_classes_reconcile_rule)
  have 2: "?B (?R xs) = ?R (?B xs)" for xs
    by (rule update_first_commute) (simp_all add: body_feed_classes_set_display)
  have 3: "?B (?B xs) = ?B xs" for xs
    by (rule update_first_idem) (simp_all add: body_feed_classes_idem)
  have 4: "?R (?M (?R (?M xs))) = ?R (?M xs)" for xs
    by (rule update_first_map_twice) (simp_all add: set_display_reconcile_rule reconcile_rule_idem)
  have "reconcile_feed b (reconcile_feed b d) = ?R (?M (?B (?R (?M (?B d)))))"
    using True has_body_stage2 [of _ _ b b d]
    by (simp add: reconcile_feed_alt)
  also have "\<dots> = ?R (?M (?R (?M (?B (?B d)))))"
    by (simp only: 1 2)
  also have "\<dots> = ?R (?M (?B d))"
    by (simp only: 3 4)
  also have "\<dots> = reconcile_feed b d"
    using True by (simp add: reconcile_feed_alt)
  finally show ?thesis .
qed

lemma document_updateBlockerState:
  "document (updateBlockerState e s) =
     (if isChromeAPIAvailable s \<and> has_body (document s) then applyChanges e (document s) else document s)"
  by (simp add: updateBlockerState_def safeSet_def storage_local_set_def safeSetTimeout_def
      setTimeout_def Let_def split: option.splits)

lemma api_updateBlockerState: "api (updateBlockerState e s) = api s"
  by (simp add: updateBlockerState_def safeSet_def storage_local_set_def safeSetTimeout_def
      setTimeout_def Let_def split: option.splits)

lemma has_body_applyChanges: "has_body (applyChanges e d) = has_body d"
  using has_body_stage [of "truthy e" _ _ "truthy e" d] by (simp add: applyChanges_alt)

lemma set_update_first:
  "y \<in> set (update_first P f xs) \<Longrightarrow> y \<in> set xs \<or> (\<exists>x \<in> set xs. y = f x)"
  by (induction xs) (auto split: if_splits)

lemma set_update_first_map:
  "y \<in> set (update_first P f (map g zs)) \<Longrightarrow> \<exists>z. y = g z \<or> y = f (g z)"
proof -
  assume "y \<in> set (update_first P f (map g zs))"
  from set_update_first [OF this] show ?thesis by auto
qed

lemma hide_feed_writes_eq:
  "hide_feed_writes = [StyleDisplay ''none'', SetAttribute hidden_marker ''true'']"
  by (simp add: hide_feed_writes_def manipulate_writes_def no_actions_def)

lemma show_feed_writes_eq:
  "show_feed_writes = [StyleDisplay [], StyleVisibility ''visible'', StyleOpacity ''1'',
     RemoveAttribute hidden_marker]"
  by (simp add: show_feed_writes_def manipulate_writes_def no_actions_def hidden_marker_def)

lemma display_writes_eq:
  "manipulate_writes (no_actions\<lparr> a_display := Some v \<rparr>) = [StyleDisplay v]"
  by (simp add: manipulate_writes_def no_actions_def)

lemma safeManipulateElement_writes:
  "safeManipulateElement el acts = fold apply_write (manipulate_writes acts) el"
  by (cases "a_display acts"; cases "a_visibility acts"; cases "a_opacity acts";
      cases "a_addClass acts"; cases "a_removeClass acts"; cases "a_setAttribute acts";
      cases "a_removeAttribute acts")
     (auto simp add: safeManipulateElement_def manipulate_writes_def)

lemma body_feed_classes_writes:
  "body_feed_classes en b = fold apply_write (body_feed_writes en) b"
  by (simp add: body_feed_classes_def body_feed_writes_def)

lemma perform_append: "perform (ws @ vs) d = perform vs (perform ws d)"
  by (simp add: perform_def)

lemma perform_Nil [simp]: "perform [] d = d"
  by (simp add: perform_def)

lemma perform_here: "perform (map (Pair 0) ws) (x # xs) = fold apply_write ws x # xs"
  by (induction ws arbitrary: x) (simp_all add: perform_def perform_write_def)

lemma perform_shift:
  "perform (map (\<lambda>(i, w). (Suc i, w)) ws) (x # xs) = x # perform ws xs"
  by (induction ws arbitrary: xs) (auto simp add: perform_def perform_write_def)

lemma perform_first_writes:
  "perform (first_writes P ws d) d = update_first P (fold apply_write ws) d"
  by (induction d) (simp_all add: perform_here perform_shift)

lemma perform_each_writes:
  "perform (each_writes f d) d = map (\<lambda>el. fold apply_write (f el) el) d"
  by (induction d) (simp_all add: perform_append perform_here perform_shift)

lemma body_feed_writes_fun: "fold apply_write (body_feed_writes en) = body_feed_classes en"
  by (rule ext) (simp add: body_feed_classes_writes)

lemma display_writes_fun: "fold apply_write [StyleDisplay v] = set_display v"
  by (rule ext) (simp add: set_display_eq)

lemma feed_writes_fun:
  "(\<lambda>el. fold apply_write (if matchesFeed el then (if en then hide_feed_writes else show_feed_writes)
      else []) el) = feed_rule en"
  by (rule ext)
     (simp add: feed_rule_def hide_feed_writes_eq show_feed_writes_eq el_eqs setAttribute_def
        removeAttribute_def)

lemma reconcile_writes_fun:
  "(\<lambda>el. fold apply_write (if matchesFeed el \<and> \<not> hasAttribute hidden_marker el
      then hide_feed_writes else []) el) = reconcile_rule True"
  "(\<lambda>el. fold apply_write (if matchesFeed el \<and> hasAttribute hidden_marker el
      then show_feed_writes else []) el) = reconcile_rule False"
  by (rule ext, simp add: reconcile_rule_def hide_feed_writes_eq show_feed_writes_eq
        hide_feed_element_eq show_feed_element_eq setAttribute_def removeAttribute_def)+

lemma first_writes_cong:
  "map P xs = map P ys \<Longrightarrow> first_writes P ws xs = first_writes P ws ys"
proof (induction xs arbitrary: ys)
  case Nil
  then show ?case by simp
next
  case (Cons x xs)
  then obtain y ys' where "ys = y # ys'" by (cases ys) auto
  with Cons show ?case by auto
qed

lemma each_writes_cong:
  "map f xs = map f ys \<Longrightarrow> each_writes f xs = each_writes f ys"
proof (induction xs arbitrary: ys)
  case Nil
  then show ?case by simp
next
  case (Cons x xs)
  then obtain y ys' where "ys = y # ys'" by (cases ys) auto
  with Cons show ?case by auto
qed

lemma map_update_first_frame:
  "(\<And>x. f (g x) = f x) \<Longrightarrow> map f (update_first P g xs) = map f xs"
  by (induction xs) auto

lemma first_writes_update_first:
  "(\<And>x. P (g x) = P x) \<Longrightarrow> first_writes P ws (update_first Q g xs) = first_writes P ws xs"
  by (rule first_writes_cong) (simp add: map_update_first_frame)

lemma first_writes_map:
  "(\<And>x. P (g x) = P x) \<Longrightarrow> first_writes P ws (map g xs) = first_writes P ws xs"
  by (rule first_writes_cong) simp

lemma each_writes_update_first:
  "(\<And>x. f (g x) = f x) \<Longrightarrow> each_writes f (update_first Q g xs) = each_writes f xs"
  by (rule each_writes_cong) (simp add: map_update_first_frame)

lemma each_writes_map:
  "(\<And>x. f (g x) = f x) \<Longrightarrow> each_writes f (map g xs) = each_writes f xs"
  by (rule each_writes_cong) simp

lemma each_writes_none: "(\<And>x. x \<in> set xs \<Longrightarrow> f x = []) \<Longrightarrow> each_writes f xs = []"
  by (induction xs) simp_all

lemma applyChanges_writes_alt:
  "applyChanges_writes e d =
     (if \<not> has_body d then []
      else first_writes isBody (body_feed_writes (truthy e)) d
           @ first_writes (\<lambda>el. el_id el = ''feed-replacement'')
               [StyleDisplay (if truthy e then ''flex'' else ''none'')] d
           @ each_writes (\<lambda>el. if matchesFeed el
                 then (if truthy e then hide_feed_writes else show_feed_writes) else []) d)"
  by (simp add: applyChanges_writes_def on_body_def on_element_by_id_def set_display_fun
      display_writes_eq Let_def first_writes_update_first each_writes_update_first)

lemma applyChanges_performs: "perform (applyChanges_writes e d) d = applyChanges e d"
proof (cases "has_body d")
  case False
  then show ?thesis by (simp add: applyChanges_writes_def applyChanges_def)
next
  case True
  define B where "B = update_first isBody (body_feed_classes (truthy e)) d"
  define v where "v = (if truthy e then ''flex'' else ''none'')"
  define R where "R = update_first (\<lambda>el. el_id el = ''feed-replacement'') (set_display v) B"
  define f where "f = (\<lambda>el :: element. if matchesFeed el
      then (if truthy e then hide_feed_writes else show_feed_writes) else [])"
  have w: "applyChanges_writes e d
      = first_writes isBody (body_feed_writes (truthy e)) d
        @ first_writes (\<lambda>el. el_id el = ''feed-replacement'') [StyleDisplay v] B
        @ each_writes f R"
    using True
    by (simp only: applyChanges_writes_def on_body_def on_element_by_id_def set_display_fun
        display_writes_eq Let_def B_def v_def R_def f_def if_False not_True_eq_False)
  have 1: "perform (first_writes isBody (body_feed_writes (truthy e)) d) d = B"
    by (simp only: perform_first_writes body_feed_writes_fun B_def)
  have 2: "perform (first_writes (\<lambda>el. el_id el = ''feed-replacement'') [StyleDisplay v] B) B = R"
    by (simp only: perform_first_writes display_writes_fun R_def)
  have 3: "perform (each_writes f R) R = map (feed_rule (truthy e)) R"
    by (simp only: perform_each_writes f_def feed_writes_fun)
  have "applyChanges e d = map (feed_rule (truthy e)) R"
    using True by (simp add: applyChanges_alt R_def B_def v_def)
  then show ?thesis
    by (simp only: w perform_append 1 2 3)
qed

lemma applyChanges_writes_again:
  "applyChanges_writes e (applyChanges e d) = applyChanges_writes e d"
proof (cases "has_body d")
  case False
  then show ?thesis by (simp add: applyChanges_alt)
next
  case True
  then show ?thesis
    using has_body_applyChanges [of e d]
    by (simp add: applyChanges_writes_alt)
       (simp add: applyChanges_alt first_writes_map first_writes_update_first each_writes_map
          each_writes_update_first)
qed

lemma first_writes_Nil:
  "(first_writes P ws xs = []) = (ws = [] \<or> \<not> (\<exists>x \<in> set xs. P x))"
  by (induction xs) auto

lemma applyChanges_writes_Nil: "(applyChanges_writes e d = []) = (\<not> has_body d)"
  by (auto simp add: applyChanges_writes_alt first_writes_Nil body_feed_writes_def has_body_def)

lemma reconcile_feed_writes_alt:
  "reconcile_feed_writes b d =
     (if \<not> has_body d then []
      else first_writes isBody (body_feed_writes b) d
           @ each_writes (\<lambda>el. if matchesFeed el \<and> hasAttribute hidden_marker el \<noteq> b
                 then (if b then hide_feed_writes else show_feed_writes) else []) d
           @ first_writes (\<lambda>el. el_id el = ''feed-replacement'')
               [StyleDisplay (if b then ''flex'' else ''none'')] d)"
proof (cases b)
  case True
  have e: "(\<lambda>el. if matchesFeed el \<and> \<not> hasAttribute hidden_marker el then hide_feed_writes else [])
      = (\<lambda>el. if matchesFeed el \<and> hasAttribute hidden_marker el \<noteq> True
                 then (if True then hide_feed_writes else show_feed_writes) else [])"
    by (rule ext) simp
  show ?thesis
    unfolding True
    by (simp add: reconcile_feed_writes_def on_body_def display_writes_eq Let_def
        reconcile_rule_fun first_writes_map first_writes_update_first each_writes_update_first)
next
  case False
  show ?thesis
    unfolding False
    by (simp add: reconcile_feed_writes_def on_body_def display_writes_eq Let_def
        reconcile_rule_fun first_writes_map first_writes_update_first each_writes_update_first)
qed

lemma reconcile_feed_performs: "perform (reconcile_feed_writes b d) d = reconcile_feed b d"
proof (cases "has_body d")
  case False
  then show ?thesis by (simp add: reconcile_feed_writes_def reconcile_feed_def)
next
  case body: True
  define B where "B = update_first isBody (body_feed_classes b) d"
  define v where "v = (if b then ''flex'' else ''none'')"
  define f where "f = (\<lambda>el :: element. if b
      then (if matchesFeed el \<and> \<not> hasAttribute hidden_marker el then hide_feed_writes else [])
      else (if matchesFeed el \<and> hasAttribute hidden_marker el then show_feed_writes else []))"
  define M where "M = map (reconcile_rule b) B"
  have f1: "(\<lambda>el. fold apply_write (f el) el) = reconcile_rule b"
    using reconcile_writes_fun by (cases b) (simp_all add: f_def)
  have w: "reconcile_feed_writes b d
      = first_writes isBody (body_feed_writes b) d @ each_writes f B
        @ first_writes (\<lambda>el. el_id el = ''feed-replacement'') [StyleDisplay v] M"
    using body
    by (cases b)
       (simp_all add: reconcile_feed_writes_def on_body_def display_writes_eq Let_def
          reconcile_rule_fun B_def v_def f_def M_def)
  have 1: "perform (first_writes isBody (body_feed_writes b) d) d = B"
    by (simp only: perform_first_writes body_feed_writes_fun B_def)
  have 2: "perform (each_writes f B) B = M"
    by (simp only: perform_each_writes f1 M_def)
  have 3: "perform (first_writes (\<lambda>el. el_id el = ''feed-replacement'') [StyleDisplay v] M) M
      = update_first (\<lambda>el. el_id el = ''feed-replacement'') (set_display v) M"
    by (simp only: perform_first_writes display_writes_fun)
  have "reconcile_feed b d = update_first (\<lambda>el. el_id el = ''feed-replacement'') (set_display v) M"
    using body by (simp add: reconcile_feed_alt M_def B_def v_def)
  then show ?thesis
    by (simp only: w perform_append 1 2 3)
qed

lemma reconcile_feed_marks:
  assumes "has_body d" and "el \<in> set (reconcile_feed b d)" and "matchesFeed el"
  shows "hasAttribute hidden_marker el = b"
proof -
  have q: "matchesFeed (reconcile_rule b x) \<longrightarrow> hasAttribute hidden_marker (reconcile_rule b x) = b" for x
    by (cases b) (simp_all add: reconcile_rule_def)
  from assms(1,2) have
    "el \<in> set (update_first (\<lambda>el. el_id el = ''feed-replacement'')
             (set_display (if b then ''flex'' else ''none''))
             (map (reconcile_rule b) (update_first isBody (body_feed_classes b) d)))"
    by (simp add: reconcile_feed_alt)
  from set_update_first_map [OF this] obtain x where "el = reconcile_rule b x
      \<or> el = set_display (if b then ''flex'' else ''none'') (reconcile_rule b x)"
    by blast
  with assms(3) q [of x] show ?thesis
    by auto
qed

lemma has_body_reconcile_feed: "has_body (reconcile_feed b d) = has_body d"
  using has_body_stage2 [of _ _ b b d] by (simp add: reconcile_feed_alt)

lemma reconcile_feed_writes_again:
  "reconcile_feed_writes b (reconcile_feed b d) =
     (if \<not> has_body d then []
      else first_writes isBody (body_feed_writes b) d
           @ first_writes (\<lambda>el. el_id el = ''feed-replacement'')
               [StyleDisplay (if b then ''flex'' else ''none'')] d)"
proof (cases "has_body d")
  case False
  then show ?thesis by (simp add: reconcile_feed_alt reconcile_feed_writes_alt)
next
  case True
  have n: "each_writes (\<lambda>el. if matchesFeed el \<and> hasAttribute hidden_marker el \<noteq> b
                 then (if b then hide_feed_writes else show_feed_writes) else [])
             (reconcile_feed b d) = []"
    by (rule each_writes_none) (use reconcile_feed_marks [OF True] in auto)
  have 1: "first_writes isBody ws (reconcile_feed b d) = first_writes isBody ws d" for ws
    using True
    by (simp add: reconcile_feed_alt first_writes_map first_writes_update_first)
  have 2: "first_writes (\<lambda>el. el_id el = ''feed-replacement'') ws (reconcile_feed b d)
      = first_writes (\<lambda>el. el_id el = ''feed-replacement'') ws d" for ws
    using True
    by (simp add: reconcile_feed_alt first_writes_map first_writes_update_first)
  show ?thesis
    using True has_body_reconcile_feed [of b d]
    by (simp only: reconcile_feed_writes_alt n 1 2 append_Nil if_False not_True_eq_False)
qed

text \<open>
  C7. Applying the feed policy a second time with the same value leaves every element as
  the first application left it: for the \<open>applyChanges\<close> closure of
  \<open>updateBlockerState\<close>, for the feed block of the observer's reconciliation pass, and
  for the document after two calls of \<open>updateBlockerState\<close>. The document that the
  closure and the feed block produce is the result of performing their write calls. The
  second application is not
  free of write calls: \<open>applyChanges\<close> makes the same calls the second time as the
  first, which together leave the document unchanged, and makes none only when the
  document has no body; the feed block of the reconciliation pass, the second time, makes
  the two class-list calls on the body and sets the placeholder's display, and writes to
  no feed element.
\<close>

theorem feed_policy_repeats_its_writes:
  "applyChanges e (applyChanges e d) = applyChanges e d
   \<and> reconcile_feed b (reconcile_feed b d) = reconcile_feed b d
   \<and> document (updateBlockerState e (updateBlockerState e s)) = document (updateBlockerState e s)
   \<and> perform (applyChanges_writes e d) d = applyChanges e d
   \<and> perform (reconcile_feed_writes b d) d = reconcile_feed b d
   \<and> applyChanges_writes e (applyChanges e d) = applyChanges_writes e d
   \<and> (applyChanges_writes e (applyChanges e d) = []) = (\<not> has_body d)
   \<and> reconcile_feed_writes b (reconcile_feed b d) =
       (if \<not> has_body d then []
        else first_writes isBody (body_feed_writes b) d
             @ first_writes (\<lambda>el. el_id el = ''feed-replacement'')
                 [StyleDisplay (if b then ''flex'' else ''none'')] d)"
  by (simp add: applyChanges_idem reconcile_feed_idem document_updateBlockerState
      api_updateBlockerState isChromeAPIAvailable_def has_body_applyChanges
      applyChanges_performs reconcile_feed_performs applyChanges_writes_again
      applyChanges_writes_Nil reconcile_feed_writes_again)


subsection \<open>Runs from the sample states\<close>

lemmas sample_defs = sample_state_def empty_store_state_def runtime_missing_state_def start_state_def
  available_api_def runtime_missing_api_def sample_body_def sample_feed_def

lemma tracked_state_eq:
  "tracked_state = sample_state\<lparr>
      observers := [0], intervals := [2], timeouts := [1],
      next_timer := 3,
      timers := [(1, \<lparr> timer_due = 100, timer_period = None, timer_fn = SafeTimeout (TApplyChanges (JBool True)) \<rparr>),
                 (2, \<lparr> timer_due = 1000, timer_period = Some 1000, timer_fn = SafeInterval TVisibilityCheck \<rparr>)],
      next_observer := 1,
      observer_objs := [(0, \<lparr> obs_connected = True, obs_timeout = None \<rparr>)],
      dcl_listeners := [LStartObserving 0], click_listener := True \<rparr>"
  by (simp add: tracked_state_def setupMutationObserver_def safeSetTimeout_def setTimeout_def
      safeSetInterval_def setInterval_def startObserving_def has_body_def sample_defs Let_def)

theorem safeGet_bounded_retry_witness:
  "storage_chain sample_state = None \<and> runtime_chain sample_state = None
   \<and> transient (Some ''Extension context invalidated.'')
   \<and> get_callbacks (deliver_get 1 None (step (EvTimer 1) (step (EvAdvance 100)
         (deliver_get 0 (Some (Some ''Extension context invalidated.''))
            (snd (safeGet [''feedBlockerEnabled''] (KGetState 7) 1 sample_state))))))
       = [(KGetState 7, [(''feedBlockerEnabled'', JBool False)])]
   \<and> get_callbacks (deliver_get 1 (Some (Some ''Extension context invalidated.''))
         (step (EvTimer 1) (step (EvAdvance 100)
         (deliver_get 0 (Some (Some ''Extension context invalidated.''))
            (snd (safeGet [''feedBlockerEnabled''] (KGetState 7) 1 sample_state))))))
       = [(KGetState 7, [])]"
proof -
  have h: "storage_chain sample_state = None" "runtime_chain sample_state = None"
    "transient (Some ''Extension context invalidated.'')"
    by (simp_all add: storage_chain_def runtime_chain_def transient_def sample_defs)
  have c: "next_request sample_state = 0" "next_timer sample_state = 1"
    "get_callbacks sample_state = []"
    "store sample_state = [(''feedBlockerEnabled'', JBool False)]"
    by (simp_all add: sample_defs)
  show ?thesis
    using safeGet_bounded_retry [OF h, of "[''feedBlockerEnabled'']" "KGetState 7" None]
          safeGet_bounded_retry [OF h, of "[''feedBlockerEnabled'']" "KGetState 7"
             "Some (Some ''Extension context invalidated.'')"]
          h c
    by (simp add: Let_def)
qed

lemma observing_sample_eq:
  "run [EvSetupObserver] sample_state = sample_state\<lparr>
      observers := [0], intervals := [1], next_timer := 2,
      timers := [(1, \<lparr> timer_due = 1000, timer_period = Some 1000,
                        timer_fn = SafeInterval TVisibilityCheck \<rparr>)],
      next_observer := 1,
      observer_objs := [(0, \<lparr> obs_connected = True, obs_timeout = None \<rparr>)],
      dcl_listeners := [LStartObserving 0], click_listener := True \<rparr>"
  by (simp add: step_def setupMutationObserver_def
      safeSetInterval_def setInterval_def startObserving_def has_body_def sample_defs Let_def)

lemma torn_down_sample_eq:
  "cleanupResources (run [EvSetupObserver] sample_state) = sample_state\<lparr>
      observers := [], intervals := [], next_timer := 2, timers := [],
      next_observer := 1,
      observer_objs := [(0, \<lparr> obs_connected = False, obs_timeout = None \<rparr>)],
      dcl_listeners := [LStartObserving 0], click_listener := True \<rparr>"
  unfolding observing_sample_eq
  by (simp add: cleanupResources_def clearTimer_def disconnect_def Let_def sample_defs)

lemma reconnected_sample_eq:
  "run [EvSetupObserver, EvUnload, EvDOMContentLoaded] sample_state = sample_state\<lparr>
      observers := [], intervals := [], next_timer := 2, timers := [],
      next_observer := 1,
      observer_objs := [(0, \<lparr> obs_connected = True, obs_timeout = None \<rparr>)],
      readyState := Interactive,
      dcl_listeners := [], click_listener := True \<rparr>"
proof -
  have "run [EvSetupObserver, EvUnload, EvDOMContentLoaded] sample_state
      = step EvDOMContentLoaded (cleanupResources (run [EvSetupObserver] sample_state))"
    by (simp add: step_def)
  then show ?thesis
    unfolding torn_down_sample_eq
    by (simp add: step_def run_dcl_def startObserving_def has_body_def sample_defs)
qed

text \<open>
  The listener that \<open>setupMutationObserver\<close> registers for \<open>DOMContentLoaded\<close>
  outlives the teardown: when the event arrives afterwards, the observer is connected
  again, its next notification schedules a reconciliation, and the pass runs.
\<close>

theorem observer_notifies_after_teardown:
  "0 \<in> set (observers (run [EvSetupObserver] sample_state))
   \<and> faulty (run [EvSetupObserver] sample_state) = []
   \<and> observers (run [EvSetupObserver, EvUnload] sample_state) = []
   \<and> \<not> is_connected 0 (run [EvSetupObserver, EvUnload] sample_state)
   \<and> is_connected 0 (run [EvSetupObserver, EvUnload, EvDOMContentLoaded] sample_state)
   \<and> reconcile_pending 0 2
       (run [EvSetupObserver, EvUnload, EvDOMContentLoaded, EvMutation 0] sample_state)
   \<and> get_callbacks
       (run [EvSetupObserver, EvUnload, EvDOMContentLoaded, EvMutation 0,
             EvAdvance 200, EvTimer 2, EvGetDone 0 None] sample_state)
     = [(KReconcile, [(''feedBlockerEnabled'', JBool False)])]"
proof -
  have u: "run [EvSetupObserver, EvUnload] sample_state
      = cleanupResources (run [EvSetupObserver] sample_state)"
    by (simp add: step_def)
  have 1: "0 \<in> set (observers (run [EvSetupObserver] sample_state))"
    "faulty (run [EvSetupObserver] sample_state) = []"
    unfolding observing_sample_eq by (simp_all add: sample_defs)
  have 2: "observers (run [EvSetupObserver, EvUnload] sample_state) = []"
    "\<not> is_connected 0 (run [EvSetupObserver, EvUnload] sample_state)"
    unfolding u torn_down_sample_eq by (simp_all add: is_connected_def)
  have 3: "is_connected 0 (run [EvSetupObserver, EvUnload, EvDOMContentLoaded] sample_state)"
    unfolding reconnected_sample_eq by (simp add: is_connected_def)
  define s3 where "s3 = run [EvSetupObserver, EvUnload, EvDOMContentLoaded] sample_state"
  have s3: "s3 = sample_state\<lparr>
      observers := [], intervals := [], next_timer := 2, timers := [],
      next_observer := 1,
      observer_objs := [(0, \<lparr> obs_connected = True, obs_timeout = None \<rparr>)],
      readyState := Interactive,
      dcl_listeners := [], click_listener := True \<rparr>"
    unfolding s3_def by (rule reconnected_sample_eq)
  have s4: "step (EvMutation 0) s3 = sample_state\<lparr>
      observers := [], intervals := [], timeouts := [2], next_timer := 3,
      timers := [(2, \<lparr> timer_due = 200, timer_period = None,
                         timer_fn = SafeTimeout (TReconcile 0) \<rparr>)],
      next_observer := 1,
      observer_objs := [(0, \<lparr> obs_connected = True, obs_timeout = Some 2 \<rparr>)],
      readyState := Interactive,
      dcl_listeners := [], click_listener := True \<rparr>"
    unfolding s3
    by (simp add: step_def observerCallback_def isChromeAPIAvailable_def has_body_def
        timeout_pending_def safeSetTimeout_def setTimeout_def set_obs_timeout_def sample_defs)
  have 4: "reconcile_pending 0 2 (step (EvMutation 0) s3)"
    unfolding s4 by (simp add: reconcile_pending_def)
  have s5: "run [EvAdvance 200, EvTimer 2] (step (EvMutation 0) s3) = sample_state\<lparr>
      observers := [], intervals := [], timeouts := [], next_timer := 3,
      timers := [], now := 200,
      next_observer := 1,
      observer_objs := [(0, \<lparr> obs_connected = True, obs_timeout = None \<rparr>)],
      readyState := Interactive,
      dcl_listeners := [], click_listener := True,
      pending_gets := [(0, [''feedBlockerEnabled'', ''newsBlockerEnabled''], KReconcile, 1)],
      next_request := 1 \<rparr>"
    unfolding s4
    by (simp add: step_def fire_timer_def reschedule_def run_timer_fn_def run_task_def
        set_obs_timeout_def safeGet_def storage_local_get_def storage_chain_def sample_defs)
  have 5: "get_callbacks (step (EvGetDone 0 None)
             (run [EvAdvance 200, EvTimer 2] (step (EvMutation 0) s3)))
     = [(KReconcile, [(''feedBlockerEnabled'', JBool False)])]"
    unfolding s5
    by (simp add: step_def deliver_get_def get_completion_def runtime_chain_def
        call_get_cont_def to_event_loop_def sample_defs)
  have r4: "run [EvSetupObserver, EvUnload, EvDOMContentLoaded, EvMutation 0] sample_state
      = step (EvMutation 0) s3"
    using run_append [of "[EvSetupObserver, EvUnload, EvDOMContentLoaded]" "[EvMutation 0]" sample_state]
    by (simp add: s3_def)
  have r5: "run [EvSetupObserver, EvUnload, EvDOMContentLoaded, EvMutation 0,
             EvAdvance 200, EvTimer 2, EvGetDone 0 None] sample_state
      = step (EvGetDone 0 None) (run [EvAdvance 200, EvTimer 2] (step (EvMutation 0) s3))"
    using run_append [of "[EvSetupObserver, EvUnload, EvDOMContentLoaded]"
        "[EvMutation 0, EvAdvance 200, EvTimer 2, EvGetDone 0 None]" sample_state]
    by (simp add: s3_def)
  show ?thesis
    unfolding r4 r5 using 1 2 3 4 5 by (simp add: s3_def)
qed

lemma loaded_sample_eq:
  "run [EvSetupObserver, EvDOMContentLoaded] sample_state = sample_state\<lparr>
      observers := [0], intervals := [1], next_timer := 2,
      timers := [(1, \<lparr> timer_due = 1000, timer_period = Some 1000,
                        timer_fn = SafeInterval TVisibilityCheck \<rparr>)],
      next_observer := 1,
      observer_objs := [(0, \<lparr> obs_connected = True, obs_timeout = None \<rparr>)],
      readyState := Interactive,
      dcl_listeners := [], click_listener := True \<rparr>"
proof -
  have "run [EvSetupObserver, EvDOMContentLoaded] sample_state
      = step EvDOMContentLoaded (run [EvSetupObserver] sample_state)"
    by simp
  then show ?thesis
    unfolding observing_sample_eq
    by (simp add: step_def run_dcl_def startObserving_def has_body_def sample_defs)
qed

theorem cleanupResources_releases_tracked_witness:
  "timeouts tracked_state = [1] \<and> intervals tracked_state = [2] \<and> observers tracked_state = [0]
   \<and> timer_live 1 tracked_state \<and> timer_live 2 tracked_state \<and> is_connected 0 tracked_state
   \<and> \<not> timer_live 1 (cleanupResources tracked_state)
   \<and> \<not> timer_live 2 (cleanupResources tracked_state)
   \<and> \<not> is_connected 0 (cleanupResources tracked_state)
   \<and> timeouts (cleanupResources tracked_state) = []
   \<and> \<not> timer_live 2 (cleanupResources (tracked_state\<lparr> faulty := [1] \<rparr>))
   \<and> \<not> is_connected 0 (cleanupResources (tracked_state\<lparr> faulty := [1] \<rparr>))
   \<and> cleanupResources (cleanupResources tracked_state) = cleanupResources tracked_state
   \<and> intervals (run [EvSetupObserver] sample_state) = [1]
   \<and> observers (run [EvSetupObserver] sample_state) = [0]
   \<and> timer_live 1 (run [EvSetupObserver] sample_state)
   \<and> is_connected 0 (run [EvSetupObserver] sample_state)
   \<and> \<not> timer_live 1 (run [EvAdvance 1000, EvTimer 1, EvDOMContentLoaded]
         (cleanupResources (run [EvSetupObserver] sample_state)))
   \<and> \<not> is_connected 0 (run [EvMutation 0, EvClick, EvAdvance 500]
         (cleanupResources (run [EvSetupObserver] sample_state)))
   \<and> dcl_listeners (run [EvSetupObserver, EvDOMContentLoaded] sample_state) = []
   \<and> \<not> is_connected 0 (run [EvDOMContentLoaded, EvMutation 0]
         (cleanupResources (run [EvSetupObserver, EvDOMContentLoaded] sample_state)))"
proof -
  have c: "timeouts tracked_state = [1]" "intervals tracked_state = [2]"
    "observers tracked_state = [0]" "faulty tracked_state = []"
    "timer_live 1 tracked_state" "timer_live 2 tracked_state" "is_connected 0 tracked_state"
    by (simp_all add: tracked_state_eq timer_live_def is_connected_def sample_defs)
  have d: "timeouts (tracked_state\<lparr> faulty := [1] \<rparr>) = [1]"
    "intervals (tracked_state\<lparr> faulty := [1] \<rparr>) = [2]"
    "observers (tracked_state\<lparr> faulty := [1] \<rparr>) = [0]"
    "faulty (tracked_state\<lparr> faulty := [1] \<rparr>) = [1]"
    by (simp_all add: c)
  have e: "(start_state available_api [(''feedBlockerEnabled'', JBool False)]
              [sample_body, sample_feed])\<lparr> faulty := [] \<rparr> = sample_state"
    by (simp add: sample_state_def start_state_def)
  have o: "intervals (run [EvSetupObserver] sample_state) = [1]"
    "timeouts (run [EvSetupObserver] sample_state) = []"
    "observers (run [EvSetupObserver] sample_state) = [0]"
    "timer_live 1 (run [EvSetupObserver] sample_state)"
    "is_connected 0 (run [EvSetupObserver] sample_state)"
    unfolding observing_sample_eq
    by (simp_all add: timer_live_def is_connected_def sample_defs)
  have l: "observers (run [EvSetupObserver, EvDOMContentLoaded] sample_state) = [0]"
    "dcl_listeners (run [EvSetupObserver, EvDOMContentLoaded] sample_state) = []"
    unfolding loaded_sample_eq by simp_all
  note T1 = cleanupResources_releases_tracked [where s = tracked_state
      and ?evs0.0 = "[EvSetupObserver]" and a = available_api
      and st = "[(''feedBlockerEnabled'', JBool False)]"
      and doc = "[sample_body, sample_feed]" and fl = "[]", unfolded Let_def e]
  note T2 = cleanupResources_releases_tracked [where s = "tracked_state\<lparr> faulty := [1] \<rparr>"
      and ?evs0.0 = "[EvSetupObserver, EvDOMContentLoaded]" and a = available_api
      and st = "[(''feedBlockerEnabled'', JBool False)]"
      and doc = "[sample_body, sample_feed]" and fl = "[]", unfolded Let_def e]
  note F1 = T1 [THEN conjunct2, THEN conjunct2, THEN conjunct2, THEN conjunct2, THEN conjunct2,
      THEN conjunct2, THEN conjunct2, THEN conjunct2, THEN conjunct2]
  note F2 = T2 [THEN conjunct2, THEN conjunct2, THEN conjunct2, THEN conjunct2, THEN conjunct2,
      THEN conjunct2, THEN conjunct2, THEN conjunct2, THEN conjunct2]
  have w1: "\<not> timer_live 1 (run [EvAdvance 1000, EvTimer 1, EvDOMContentLoaded]
         (cleanupResources (run [EvSetupObserver] sample_state)))"
    by (rule F1 [THEN conjunct1, rule_format, THEN conjunct1]) (use o in simp_all)
  have w2: "\<not> is_connected 0 (run [EvMutation 0, EvClick, EvAdvance 500]
         (cleanupResources (run [EvSetupObserver] sample_state)))"
    by (rule F1 [THEN conjunct2, rule_format, THEN conjunct1]) (use o in simp_all)
  have w3: "\<not> is_connected 0 (run [EvDOMContentLoaded, EvMutation 0]
         (cleanupResources (run [EvSetupObserver, EvDOMContentLoaded] sample_state)))"
    by (rule F2 [THEN conjunct2, rule_format, THEN conjunct1]) (use l in simp_all)
  have w4: "\<not> timer_live 1 (cleanupResources tracked_state)"
    "\<not> timer_live 2 (cleanupResources tracked_state)"
    "\<not> is_connected 0 (cleanupResources tracked_state)"
    "timeouts (cleanupResources tracked_state) = []"
    "cleanupResources (cleanupResources tracked_state) = cleanupResources tracked_state"
    using T1 c by simp_all
  have w5: "\<not> timer_live 2 (cleanupResources (tracked_state\<lparr> faulty := [1] \<rparr>))"
    "\<not> is_connected 0 (cleanupResources (tracked_state\<lparr> faulty := [1] \<rparr>))"
    using T2 d by simp_all
  from c o l w1 w2 w3 w4 w5 show ?thesis
    by simp
qed

lemma blocked_sample:
  "applyChanges (JBool True) [sample_body, sample_feed]
     = [sample_body\<lparr> classList := [''feed-blocker-active''] \<rparr>,
        sample_feed\<lparr> display := ''none'',
                     attributes := [(''data-hidden-by-focus-mode'', ''true'')] \<rparr>]"
  by (simp add: applyChanges_alt has_body_def feed_rule_def el_eqs hidden_marker_def
      sample_body_def sample_feed_def)

text \<open>
  On the sample document, once blocked, \<open>applyChanges\<close> with \<open>true\<close> makes four write
  calls: the two class-list calls on the body, and the display and the marker of the feed
  element.
\<close>

theorem second_application_writes_again:
  "applyChanges (JBool True) [sample_body, sample_feed]
     = [sample_body\<lparr> classList := [''feed-blocker-active''] \<rparr>,
        sample_feed\<lparr> display := ''none'',
                     attributes := [(''data-hidden-by-focus-mode'', ''true'')] \<rparr>]
   \<and> applyChanges_writes (JBool True)
       [sample_body\<lparr> classList := [''feed-blocker-active''] \<rparr>,
        sample_feed\<lparr> display := ''none'',
                     attributes := [(''data-hidden-by-focus-mode'', ''true'')] \<rparr>]
     = [(0, ClassListAdd ''feed-blocker-active''), (0, ClassListRemove ''feed-blocker-disabled''),
        (1, StyleDisplay ''none''), (1, SetAttribute ''data-hidden-by-focus-mode'' ''true'')]"
proof -
  have "applyChanges_writes (JBool True)
       [sample_body\<lparr> classList := [''feed-blocker-active''] \<rparr>,
        sample_feed\<lparr> display := ''none'',
                     attributes := [(''data-hidden-by-focus-mode'', ''true'')] \<rparr>]
     = [(0, ClassListAdd ''feed-blocker-active''), (0, ClassListRemove ''feed-blocker-disabled''),
        (1, StyleDisplay ''none''), (1, SetAttribute ''data-hidden-by-focus-mode'' ''true'')]"
    by (simp add: applyChanges_writes_alt has_body_def body_feed_writes_def
        hide_feed_writes_eq hidden_marker_def sample_body_def sample_feed_def)
  with blocked_sample show ?thesis
    by blast
qed

theorem feed_policy_repeats_its_writes_witness:
  "applyChanges (JBool False) [sample_body, sample_feed]
     = [sample_body\<lparr> classList := [''feed-blocker-disabled''] \<rparr>,
        sample_feed\<lparr> visibility := ''visible'', opacity := ''1'' \<rparr>]
   \<and> applyChanges (JBool False) (applyChanges (JBool False) [sample_body, sample_feed])
     = [sample_body\<lparr> classList := [''feed-blocker-disabled''] \<rparr>,
        sample_feed\<lparr> visibility := ''visible'', opacity := ''1'' \<rparr>]
   \<and> applyChanges_writes (JBool False) (applyChanges (JBool False) [sample_body, sample_feed])
     = [(0, ClassListAdd ''feed-blocker-disabled''), (0, ClassListRemove ''feed-blocker-active''),
        (1, StyleDisplay []), (1, StyleVisibility ''visible''), (1, StyleOpacity ''1''),
        (1, RemoveAttribute ''data-hidden-by-focus-mode'')]
   \<and> reconcile_feed_writes True (reconcile_feed True [sample_body, sample_feed])
     = [(0, ClassListAdd ''feed-blocker-active''), (0, ClassListRemove ''feed-blocker-disabled'')]"
proof -
  have a: "applyChanges (JBool False) [sample_body, sample_feed]
     = [sample_body\<lparr> classList := [''feed-blocker-disabled''] \<rparr>,
        sample_feed\<lparr> visibility := ''visible'', opacity := ''1'' \<rparr>]"
    by (simp add: applyChanges_alt has_body_def feed_rule_def el_eqs hidden_marker_def
        sample_body_def sample_feed_def)
  have w: "applyChanges_writes (JBool False) [sample_body, sample_feed]
     = [(0, ClassListAdd ''feed-blocker-disabled''), (0, ClassListRemove ''feed-blocker-active''),
        (1, StyleDisplay []), (1, StyleVisibility ''visible''), (1, StyleOpacity ''1''),
        (1, RemoveAttribute ''data-hidden-by-focus-mode'')]"
    by (simp add: applyChanges_writes_alt has_body_def body_feed_writes_def
        show_feed_writes_eq hidden_marker_def sample_body_def sample_feed_def)
  have b: "has_body [sample_body, sample_feed]"
    by (simp add: has_body_def sample_body_def)
  have f: "first_writes isBody (body_feed_writes True) [sample_body, sample_feed]
       @ first_writes (\<lambda>el. el_id el = ''feed-replacement'') [StyleDisplay ''flex'']
           [sample_body, sample_feed]
     = [(0, ClassListAdd ''feed-blocker-active''), (0, ClassListRemove ''feed-blocker-disabled'')]"
    by (simp add: body_feed_writes_def sample_body_def sample_feed_def)
  show ?thesis
    using feed_policy_repeats_its_writes [of "JBool False" "[sample_body, sample_feed]" True]
      a w b f
    by simp
qed

subsection \<open>Where the script departs from its intent\<close>

text \<open>
  C1. The \<open>toggleNewsBlocker\<close> branch of the listener calls \<open>updateNewsBlockerState\<close>,
  which is not declared: with the runtime available, the message
  \<open>{action: 'toggleNewsBlocker', enabled: true}\<close> makes the listener throw a
  \<open>ReferenceError\<close> with the state unchanged, so nothing is persisted and no
  acknowledgement is sent. The \<open>toggleFeedBlocker\<close> branch beside it, in the same state,
  queues the write of \<open>feedBlockerEnabled\<close> and acknowledges with \<open>{success: true}\<close>.
\<close>

theorem toggleNewsBlocker_throws:
  "onMessage [(''action'', JStr ''toggleNewsBlocker''), (''enabled'', JBool True)] 7 sample_state
     = (Inl (ReferenceError ''updateNewsBlockerState is not defined''), sample_state)
   \<and> responses (snd (onMessage [(''action'', JStr ''toggleFeedBlocker''), (''enabled'', JBool True)] 7 sample_state))
     = [(7, [(''success'', JBool True)])]
   \<and> pending_sets (snd (onMessage [(''action'', JStr ''toggleFeedBlocker''), (''enabled'', JBool True)] 7 sample_state))
     = [(0, [(''feedBlockerEnabled'', JBool True)], None)]"
  by (simp add: onMessage_def isChromeAPIAvailable_def getProp_def updateNewsBlockerState_def
      send_response_def updateBlockerState_def safeSet_def storage_local_set_def storage_chain_def
      safeSetTimeout_def setTimeout_def Let_def sample_defs)

text \<open>
  C9. With \<open>chrome.storage.local\<close> defined and \<open>chrome.runtime\<close> undefined the guard
  reports false and \<open>safeSet\<close> returns \<open>false\<close> without touching the store, but
  \<open>safeGet\<close>, which has no guard, dispatches the read and calls nothing. When the host
  completes the read, the completion closure throws a \<open>TypeError\<close> on
  \<open>chrome.runtime.lastError\<close>: the exception reaches the event loop, the callback is
  never called and no response is sent. And when the host call itself throws, the
  callback is called from the \<open>catch\<close> block, so the \<open>ReferenceError\<close> of the
  initial-read callback leaves \<open>safeGet\<close>.
\<close>

theorem safeGet_without_runtime_never_calls_back:
  "\<not> isChromeAPIAvailable runtime_missing_state
   \<and> safeSet [(''feedBlockerEnabled'', JBool True)] None runtime_missing_state = (False, runtime_missing_state)
   \<and> fst (safeGet [''feedBlockerEnabled''] (KGetState 7) 1 runtime_missing_state) = None
   \<and> get_callbacks (snd (safeGet [''feedBlockerEnabled''] (KGetState 7) 1 runtime_missing_state)) = []
   \<and> get_callbacks (deliver_get 0 None (snd (safeGet [''feedBlockerEnabled''] (KGetState 7) 1 runtime_missing_state))) = []
   \<and> responses (deliver_get 0 None (snd (safeGet [''feedBlockerEnabled''] (KGetState 7) 1 runtime_missing_state))) = []
   \<and> uncaught (deliver_get 0 None (snd (safeGet [''feedBlockerEnabled''] (KGetState 7) 1 runtime_missing_state)))
       = [TypeError ''cannot read properties of undefined (reading lastError)'']
   \<and> fst (safeGet [''feedBlockerEnabled'', ''newsBlockerEnabled''] KInitPrefs 1
            (sample_state\<lparr> invalidated := True \<rparr>))
       = Some (ReferenceError ''updateNewsBlockerState is not defined'')"
  by (simp add: isChromeAPIAvailable_def safeSet_def safeGet_def storage_local_get_def storage_chain_def
      deliver_get_def get_completion_def runtime_chain_def to_event_loop_def sample_defs
      call_get_cont_def initPrefsCallback_def updateNewsBlockerState_def)

text \<open>
  C2. The retry of \<open>safeGet\<close> is scheduled with the host's \<open>setTimeout\<close>: after a
  transient failure of a read, the retry timer is live while \<open>timeouts\<close> and
  \<open>intervals\<close> are empty, \<open>cleanupResources\<close> leaves it live, and after teardown and
  100 ms it fires and dispatches the read again.
\<close>

theorem retry_timer_survives_teardown:
  "timeouts (deliver_get 0 (Some (Some ''Extension context invalidated.''))
       (snd (safeGet [''feedBlockerEnabled''] KEnsureVisible 1 sample_state))) = []
   \<and> intervals (deliver_get 0 (Some (Some ''Extension context invalidated.''))
       (snd (safeGet [''feedBlockerEnabled''] KEnsureVisible 1 sample_state))) = []
   \<and> timers (deliver_get 0 (Some (Some ''Extension context invalidated.''))
       (snd (safeGet [''feedBlockerEnabled''] KEnsureVisible 1 sample_state)))
      = [(1, \<lparr> timer_due = 100, timer_period = None,
               timer_fn = Raw (TRetryGet [''feedBlockerEnabled''] KEnsureVisible 0) \<rparr>)]
   \<and> timers (cleanupResources (deliver_get 0 (Some (Some ''Extension context invalidated.''))
       (snd (safeGet [''feedBlockerEnabled''] KEnsureVisible 1 sample_state))))
      = [(1, \<lparr> timer_due = 100, timer_period = None,
               timer_fn = Raw (TRetryGet [''feedBlockerEnabled''] KEnsureVisible 0) \<rparr>)]
   \<and> pending_gets (run [EvGetDone 0 (Some (Some ''Extension context invalidated.'')),
                         EvUnload, EvAdvance 100, EvTimer 1]
       (snd (safeGet [''feedBlockerEnabled''] KEnsureVisible 1 sample_state)))
      = [(1, [''feedBlockerEnabled''], KEnsureVisible, 0)]"
  by (simp add: safeGet_def storage_local_get_def storage_chain_def
      deliver_get_def get_completion_def runtime_chain_def to_event_loop_def setTimeout_def
      transient_def cleanupResources_def step_def fire_timer_def reschedule_def run_timer_fn_def
      run_task_def sample_defs)

subsection \<open>The observer's throttle\<close>

lemma extends_refl: "extends s s"
  by (simp add: extends_def)

lemma extends_same: "tview s' = tview s \<Longrightarrow> extends s s'"
  by (simp add: extends_def tview_def obs_timeout_of_def)

lemma extends_trans:
  assumes "extends s s'" and "extends s' s''"
  shows "extends s s''"
  unfolding extends_def
proof (intro conjI allI impI)
  show "next_timer s \<le> next_timer s''" using assms by (simp add: extends_def)
  show "next_observer s'' = next_observer s" using assms by (simp add: extends_def)
  show "obs_timeout_of obs s'' = obs_timeout_of obs s" for obs
    using assms by (simp add: extends_def)
  show "(map_of (observer_objs s'') obs = None) = (map_of (observer_objs s) obs = None)" for obs
    using assms by (simp add: extends_def)
  fix h t
  assume t: "map_of (timers s'') h = Some t"
  from assms have n: "next_timer s \<le> next_timer s'" "next_timer s' \<le> next_timer s''"
    by (simp_all add: extends_def)
  from assms(2) t consider
      (old) t1 where "map_of (timers s') h = Some t1" "timer_fn t1 = timer_fn t"
          "timer_period t1 = timer_period t"
    | (new) "next_timer s' \<le> h" "h < next_timer s''" "\<forall>obs. task_of (timer_fn t) \<noteq> TReconcile obs"
    unfolding extends_def by blast
  then show "(\<exists>t0. map_of (timers s) h = Some t0 \<and> timer_fn t0 = timer_fn t
                   \<and> timer_period t0 = timer_period t)
             \<or> (next_timer s \<le> h \<and> h < next_timer s''
                 \<and> (\<forall>obs. task_of (timer_fn t) \<noteq> TReconcile obs))"
  proof cases
    case old
    from assms(1) old(1) consider
        (old2) t0 where "map_of (timers s) h = Some t0" "timer_fn t0 = timer_fn t1"
          "timer_period t0 = timer_period t1"
      | (new2) "next_timer s \<le> h" "h < next_timer s'" "\<forall>obs. task_of (timer_fn t1) \<noteq> TReconcile obs"
      unfolding extends_def by blast
    then show ?thesis
    proof cases
      case old2
      with old show ?thesis by simp
    next
      case new2
      with old n show ?thesis by simp
    qed
  next
    case new
    with n show ?thesis by simp
  qed
qed

lemma extends_inv:
  assumes "throttle_inv s" and "extends s s'"
  shows "throttle_inv s'"
proof -
  have nt: "0 < next_timer s'"
    using assms by (simp add: throttle_inv_def extends_def)
  have tm: "0 < h \<and> h < next_timer s' \<and> (\<forall>obs. task_of (timer_fn t) = TReconcile obs \<longrightarrow>
                    timer_fn t = SafeTimeout (TReconcile obs) \<and> timer_period t = None
                    \<and> obs_timeout_of obs s' = Some h)"
    if t: "map_of (timers s') h = Some t" for h t
  proof -
    from assms(2) t consider
        (old) t0 where "map_of (timers s) h = Some t0" "timer_fn t0 = timer_fn t"
            "timer_period t0 = timer_period t"
      | (new) "next_timer s \<le> h" "h < next_timer s'" "\<forall>obs. task_of (timer_fn t) \<noteq> TReconcile obs"
      unfolding extends_def by blast
    then show ?thesis
    proof cases
      case old
      from assms(1) old(1) have "0 < h" "h < next_timer s"
        "\<forall>obs. task_of (timer_fn t0) = TReconcile obs \<longrightarrow>
                      timer_fn t0 = SafeTimeout (TReconcile obs) \<and> timer_period t0 = None
                      \<and> obs_timeout_of obs s = Some h"
        unfolding throttle_inv_def by blast+
      moreover from assms(2) have "next_timer s \<le> next_timer s'"
        "\<forall>obs. obs_timeout_of obs s' = obs_timeout_of obs s"
        by (simp_all add: extends_def)
      ultimately show ?thesis using old by simp
    next
      case new
      moreover from assms(1) have "0 < next_timer s" by (simp add: throttle_inv_def)
      ultimately show ?thesis by simp
    qed
  qed
  have ob: "obs < next_observer s'" if "map_of (observer_objs s') obs = Some ob" for obs ob
  proof -
    from assms(2) have "(map_of (observer_objs s') obs = None) = (map_of (observer_objs s) obs = None)"
      and n: "next_observer s' = next_observer s"
      by (simp_all add: extends_def)
    with that obtain ob0 where "map_of (observer_objs s) obs = Some ob0"
      by auto
    with assms(1) have "obs < next_observer s"
      unfolding throttle_inv_def by blast
    with n show ?thesis by simp
  qed
  show ?thesis
    unfolding throttle_inv_def using nt tm ob by blast
qed

lemma map_of_update_Some:
  "map_of (AList.update k v al) h = Some t \<Longrightarrow> (h = k \<and> t = v) \<or> (h \<noteq> k \<and> map_of al h = Some t)"
  by (simp add: update_conv' split: if_splits)

lemma map_of_delete_Some:
  "map_of (AList.delete k al) h = Some t \<Longrightarrow> map_of al h = Some t"
  by (simp add: delete_conv' split: if_splits)

lemma extends_new_timer:
  assumes "timers s' = AList.update (next_timer s) t (timers s)"
    and "next_timer s' = Suc (next_timer s)"
    and "observer_objs s' = observer_objs s" and "next_observer s' = next_observer s"
    and "\<forall>obs. task_of (timer_fn t) \<noteq> TReconcile obs"
  shows "extends s s'"
  unfolding extends_def using assms
  by (auto simp: obs_timeout_of_def dest!: map_of_update_Some)

lemma extends_fewer_timers:
  assumes "timers s' = AList.delete k (timers s)"
    and "next_timer s' = next_timer s"
    and "observer_objs s' = observer_objs s" and "next_observer s' = next_observer s"
  shows "extends s s'"
  unfolding extends_def using assms
  by (auto simp: obs_timeout_of_def dest!: map_of_delete_Some)

lemma extends_connected:
  assumes "timers s' = timers s" and "next_timer s' = next_timer s"
    and "observer_objs s' = AList.map_entry k (\<lambda>ob. ob\<lparr>obs_connected := c\<rparr>) (observer_objs s)"
    and "next_observer s' = next_observer s"
  shows "extends s s'"
  unfolding extends_def using assms
  by (auto simp: obs_timeout_of_def map_of_map_entry split: option.splits)

lemma extends_setTimeout:
  "\<forall>obs. task_of f \<noteq> TReconcile obs \<Longrightarrow> extends s (snd (setTimeout f d s))"
  by (rule extends_new_timer [where t = "\<lparr> timer_due = now s + d, timer_period = None, timer_fn = f \<rparr>"])
     (simp_all add: setTimeout_def)

lemma extends_safeSetTimeout:
  "\<forall>obs. t \<noteq> TReconcile obs \<Longrightarrow> extends s (snd (safeSetTimeout t d s))"
  by (rule extends_new_timer [where t = "\<lparr> timer_due = now s + d, timer_period = None, timer_fn = SafeTimeout t \<rparr>"])
     (simp_all add: safeSetTimeout_def setTimeout_def)

lemma extends_safeSetInterval:
  "\<forall>obs. t \<noteq> TReconcile obs \<Longrightarrow> extends s (snd (safeSetInterval t d s))"
  by (rule extends_new_timer [where t = "\<lparr> timer_due = now s + d, timer_period = Some d, timer_fn = SafeInterval t \<rparr>"])
     (simp_all add: safeSetInterval_def setInterval_def)

lemma extends_clearTimer: "clearTimer h s = Inr s1 \<Longrightarrow> extends s s1"
  by (rule extends_fewer_timers [where k = h]) (auto simp: clearTimer_def split: if_splits)

lemma extends_disconnect: "disconnect h s = Inr s1 \<Longrightarrow> extends s s1"
  by (rule extends_connected [where k = h and c = False]) (auto simp: disconnect_def split: if_splits)

lemma extends_registry:
  "extends s (s\<lparr> intervals := x \<rparr>)" "extends s (s\<lparr> timeouts := y \<rparr>)"
  "extends s (s\<lparr> observers := z \<rparr>)"
  by (rule extends_same, simp add: tview_def)+

lemma extends_clearSafeInterval: "extends s (clearSafeInterval h s)"
  by (cases "clearTimer h s")
     (auto simp: clearSafeInterval_def extends_refl
        intro: extends_trans [OF extends_clearTimer extends_registry(1)])

lemma extends_clearSafeTimeout: "extends s (clearSafeTimeout h s)"
  by (cases "clearTimer h s")
     (auto simp: clearSafeTimeout_def extends_refl
        intro: extends_trans [OF extends_clearTimer extends_registry(2)])

lemma extends_clear_each: "extends s (clear_each hs s)"
proof (induction hs arbitrary: s)
  case Nil
  show ?case by (simp add: extends_refl)
next
  case (Cons h hs)
  show ?case
  proof (cases "clearTimer h s")
    case (Inl e)
    with Cons show ?thesis by simp
  next
    case (Inr s1)
    with Cons [of s1] extends_clearTimer [OF Inr] show ?thesis
      by (auto intro: extends_trans)
  qed
qed

lemma extends_disconnect_each: "extends s (disconnect_each hs s)"
proof (induction hs arbitrary: s)
  case Nil
  show ?case by (simp add: extends_refl)
next
  case (Cons h hs)
  show ?case
  proof (cases "disconnect h s")
    case (Inl e)
    with Cons show ?thesis by simp
  next
    case (Inr s1)
    with Cons [of s1] extends_disconnect [OF Inr] show ?thesis
      by (auto intro: extends_trans)
  qed
qed

lemma extends_cleanupResources: "extends s (cleanupResources s)"
proof -
  define s1 where "s1 = (clear_each (intervals s) s)\<lparr> intervals := [] \<rparr>"
  define s2 where "s2 = (clear_each (timeouts s1) s1)\<lparr> timeouts := [] \<rparr>"
  have 1: "extends s s1"
    unfolding s1_def by (rule extends_trans [OF extends_clear_each extends_registry(1)])
  have 2: "extends s1 s2"
    unfolding s2_def by (rule extends_trans [OF extends_clear_each extends_registry(2)])
  have 3: "extends s2 ((disconnect_each (observers s2) s2)\<lparr> observers := [] \<rparr>)"
    by (rule extends_trans [OF extends_disconnect_each extends_registry(3)])
  have "cleanupResources s = (disconnect_each (observers s2) s2)\<lparr> observers := [] \<rparr>"
    by (simp add: cleanupResources_def Let_def s1_def s2_def)
  with extends_trans [OF 1 extends_trans [OF 2 3]] show ?thesis by simp
qed


lemma extends_safeSet: "extends s (snd (safeSet d c s))"
  by (rule extends_same)
     (simp add: tview_def safeSet_def storage_local_set_def split: option.splits)

lemma extends_updateBlockerState: "extends s (updateBlockerState e s)"
proof (cases "isChromeAPIAvailable s")
  case False
  then show ?thesis by (simp add: updateBlockerState_def extends_refl)
next
  case True
  define s1 where "s1 = snd (safeSet [(''feedBlockerEnabled'', e)] None s)"
  define s2 where "s2 = (if has_body (document s1)
                  then s1\<lparr> document := applyChanges e (document s1) \<rparr> else s1)"
  define s3 where "s3 = snd (safeSetTimeout (TApplyChanges e) 100 s2)"
  have 1: "extends s s1" unfolding s1_def by (rule extends_safeSet)
  have 2: "extends s1 s2" unfolding s2_def by (rule extends_same) (simp add: tview_def)
  have 3: "extends s2 s3" unfolding s3_def by (rule extends_safeSetTimeout) simp
  have 4: "extends s3 (if readyState s3 \<noteq> Complete
           then s3\<lparr> dcl_listeners := dcl_listeners s3 @ [LApplyChanges e] \<rparr> else s3)"
    by (rule extends_same) (simp add: tview_def)
  have "updateBlockerState e s = (if readyState s3 \<noteq> Complete
           then s3\<lparr> dcl_listeners := dcl_listeners s3 @ [LApplyChanges e] \<rparr> else s3)"
    using True by (simp add: updateBlockerState_def Let_def s1_def s2_def s3_def)
  with extends_trans [OF 1 extends_trans [OF 2 extends_trans [OF 3 4]]] show ?thesis by simp
qed

lemma extends_call_get_cont: "extends s (snd (call_get_cont k r s))"
proof -
  define s1 where "s1 = s\<lparr> get_callbacks := get_callbacks s @ [(k, r)] \<rparr>"
  have 1: "extends s s1" unfolding s1_def by (rule extends_same) (simp add: tview_def)
  have 2: "extends s1 (snd (call_get_cont k r s))"
  proof (cases k)
    case KInitPrefs
    then have "snd (call_get_cont k r s)
        = updateBlockerState (prefOrDefault r ''feedBlockerEnabled'') s1"
      by (simp add: call_get_cont_def initPrefsCallback_def updateNewsBlockerState_def Let_def s1_def)
    then show ?thesis by (simp add: extends_updateBlockerState)
  next
    case (KGetState ch)
    then show ?thesis
      by (intro extends_same) (simp add: call_get_cont_def getStateCallback_def Let_def s1_def tview_def)
  next
    case KReconcile
    then show ?thesis
      by (intro extends_same) (simp add: call_get_cont_def Let_def s1_def tview_def)
  next
    case KEnsureVisible
    then show ?thesis
      by (intro extends_same) (simp add: call_get_cont_def Let_def s1_def tview_def)
  qed
  from extends_trans [OF 1 2] show ?thesis .
qed

lemma extends_safeGet: "extends s (snd (safeGet keys k r s))"
proof (cases "storage_local_get keys k r s")
  case (Inl e)
  then show ?thesis by (simp add: safeGet_def extends_call_get_cont)
next
  case (Inr s1)
  then have "tview s1 = tview s"
    by (auto simp: storage_local_get_def tview_def split: option.splits)
  with Inr show ?thesis by (simp add: safeGet_def extends_same)
qed

lemma extends_get_completion: "extends s (snd (get_completion keys k r err res s))"
proof (cases "runtime_chain s")
  case (Some e)
  then show ?thesis by (simp add: get_completion_def extends_refl)
next
  case None
  show ?thesis
  proof (cases err)
    case noerr: None
    with None show ?thesis by (simp add: get_completion_def extends_call_get_cont)
  next
    case (Some msg)
    with None show ?thesis
      by (simp add: get_completion_def extends_call_get_cont extends_setTimeout)
  qed
qed

lemma extends_to_event_loop: "extends s (snd r) \<Longrightarrow> extends s (to_event_loop r)"
proof -
  assume a: "extends s (snd r)"
  obtain e s1 where r: "r = (e, s1)" by (cases r)
  show ?thesis
  proof (cases e)
    case None
    with a r show ?thesis by (simp add: to_event_loop_def)
  next
    case (Some x)
    have "extends s1 (s1\<lparr> uncaught := uncaught s1 @ [x] \<rparr>)"
      by (rule extends_same) (simp add: tview_def)
    with a r Some show ?thesis
      by (auto simp: to_event_loop_def intro: extends_trans)
  qed
qed

lemma extends_deliver_get: "extends s (deliver_get h err s)"
proof (cases "map_of (pending_gets s) h")
  case None
  then show ?thesis by (simp add: deliver_get_def extends_refl)
next
  case (Some req)
  obtain keys k r where req: "req = (keys, k, r)" by (cases req)
  define s1 where "s1 = s\<lparr> pending_gets := AList.delete h (pending_gets s) \<rparr>"
  have 1: "extends s s1" unfolding s1_def by (rule extends_same) (simp add: tview_def)
  have 2: "extends s1 (to_event_loop (get_completion keys k r err
               (if err = None then storage_read keys (store s) else []) s1))"
    by (rule extends_to_event_loop) (rule extends_get_completion)
  from extends_trans [OF 1 2] Some req show ?thesis
    by (simp add: deliver_get_def s1_def)
qed

lemma extends_deliver_set: "extends s (deliver_set h err s)"
proof (cases "map_of (pending_sets s) h")
  case None
  then show ?thesis by (simp add: deliver_set_def extends_refl)
next
  case (Some req)
  obtain d c where req: "req = (d, c)" by (cases req)
  define s1 where "s1 = s\<lparr> pending_sets := AList.delete h (pending_sets s),
                    store := (if err = None then storage_write d (store s) else store s) \<rparr>"
  have 1: "extends s s1" unfolding s1_def by (rule extends_same) (simp add: tview_def)
  have "tview (snd (set_completion c err s1)) = tview s1"
    by (simp add: set_completion_def tview_def split: option.splits)
  then have 2: "extends s1 (to_event_loop (set_completion c err s1))"
    by (intro extends_to_event_loop extends_same)
  from extends_trans [OF 1 2] Some req show ?thesis
    by (simp add: deliver_set_def s1_def)
qed

lemma extends_startObserving: "extends s (startObserving obs s)"
proof (cases "has_body (document s)")
  case False
  then show ?thesis by (simp add: startObserving_def extends_refl)
next
  case True
  then show ?thesis
    by (intro extends_connected [where k = obs and c = True]) (simp_all add: startObserving_def)
qed

lemma extends_clickHandler: "extends s (clickHandler s)"
proof (cases "isChromeAPIAvailable s")
  case False
  then show ?thesis by (simp add: clickHandler_def extends_same tview_def)
next
  case True
  then show ?thesis by (simp add: clickHandler_def extends_safeSetTimeout)
qed

lemma extends_onMessage: "extends s (snd (onMessage req ch s))"
proof -
  have a: "extends s (send_response ch p (updateBlockerState e s))" for p e
  proof -
    have "extends (updateBlockerState e s) (send_response ch p (updateBlockerState e s))"
      by (rule extends_same) (simp add: send_response_def tview_def)
    from extends_trans [OF extends_updateBlockerState this] show ?thesis .
  qed
  have b: "extends s (snd (case safeGet keys k r s of
           (Some e, s1) \<Rightarrow> (Inl e, s1)
         | (None, s1) \<Rightarrow> (Inr (JBool True), s1)))" for keys k r
    using extends_safeGet [of s keys k r]
    by (cases "safeGet keys k r s") (auto split: option.splits)
  show ?thesis
    using a b by (simp add: onMessage_def updateNewsBlockerState_def extends_refl)
qed

lemma extends_run_dcl: "extends s (run_dcl l s)"
  by (cases l) (simp_all add: run_dcl_def extends_startObserving extends_same tview_def)

lemma extends_fold_run_dcl: "extends s (fold run_dcl ls s)"
proof (induction ls arbitrary: s)
  case Nil
  show ?case by (simp add: extends_refl)
next
  case (Cons l ls)
  from extends_trans [OF extends_run_dcl Cons] show ?case by simp
qed


lemma extends_run_task:
  assumes "\<forall>obs. t \<noteq> TReconcile obs"
  shows "extends s (snd (run_task self t s))"
proof (cases t)
  case (TRetryGet keys k r)
  then show ?thesis by (simp add: run_task_def extends_safeGet)
next
  case (TApplyChanges e)
  then show ?thesis by (simp add: run_task_def extends_same tview_def)
next
  case (TReconcile obs)
  with assms show ?thesis by simp
next
  case TClickCheck
  then show ?thesis by (simp add: run_task_def extends_safeGet)
next
  case TVisibilityCheck
  show ?thesis
  proof (cases "isChromeAPIAvailable s")
    case False
    with TVisibilityCheck show ?thesis by (simp add: run_task_def extends_clearSafeInterval)
  next
    case True
    obtain e s1 where g: "safeGet [''feedBlockerEnabled''] KEnsureVisible 1 s = (e, s1)"
      by (cases "safeGet [''feedBlockerEnabled''] KEnsureVisible 1 s")
    with extends_safeGet [of s "[''feedBlockerEnabled'']" KEnsureVisible 1]
    have 1: "extends s s1" by simp
    from extends_trans [OF 1 extends_clearSafeInterval] have 2: "extends s (clearSafeInterval self s1)" .
    from TVisibilityCheck True g 1 2 show ?thesis
      by (cases e) (simp_all add: run_task_def)
  qed
qed

lemma extends_run_timer_fn:
  assumes "\<forall>obs. task_of f \<noteq> TReconcile obs"
  shows "extends s (run_timer_fn h f s)"
proof (cases f)
  case (Raw t)
  with assms have "extends s (snd (run_task h t s))" by (simp add: extends_run_task)
  then have "extends s (to_event_loop (run_task h t s))" by (rule extends_to_event_loop)
  with Raw show ?thesis
    by (simp add: run_timer_fn_def to_event_loop_def split: prod.splits option.splits)
next
  case (SafeTimeout t)
  have 1: "extends s (s\<lparr> timeouts := remove1 h (timeouts s) \<rparr>)" by (rule extends_registry)
  from SafeTimeout assms
  have 2: "extends (s\<lparr> timeouts := remove1 h (timeouts s) \<rparr>)
             (snd (run_task h t (s\<lparr> timeouts := remove1 h (timeouts s) \<rparr>)))"
    by (simp add: extends_run_task)
  from extends_trans [OF 1 2] SafeTimeout show ?thesis by (simp add: run_timer_fn_def)
next
  case (SafeInterval t)
  show ?thesis
  proof (cases "isChromeAPIAvailable s")
    case False
    with SafeInterval show ?thesis by (simp add: run_timer_fn_def extends_clearSafeInterval)
  next
    case True
    obtain e s1 where g: "run_task h t s = (e, s1)" by (cases "run_task h t s")
    with SafeInterval assms extends_run_task [of t s h] have 1: "extends s s1" by simp
    from extends_trans [OF 1 extends_clearSafeInterval] have 2: "extends s (clearSafeInterval h s1)" .
    from SafeInterval True g 1 2 show ?thesis
      by (cases e) (simp_all add: run_timer_fn_def)
  qed
qed

lemma extends_reschedule:
  assumes "map_of (timers s) h = Some t"
  shows "extends s (reschedule h t s)"
proof (cases "timer_period t")
  case None
  then show ?thesis
    by (intro extends_fewer_timers [where k = h]) (simp_all add: reschedule_def)
next
  case (Some p)
  have "extends s (s\<lparr> timers := AList.update h (t\<lparr> timer_due := now s + p \<rparr>) (timers s) \<rparr>)"
    unfolding extends_def using assms
    by (auto simp: obs_timeout_of_def dest!: map_of_update_Some)
  with Some show ?thesis by (simp add: reschedule_def)
qed

lemma map_of_map_entry_dom:
  "(map_of (AList.map_entry k f al) x = None) = (map_of al x = None)"
  by (simp add: map_of_map_entry split: option.splits)

lemma obs_timeout_of_set_obs_timeout:
  "obs_timeout_of x (set_obs_timeout obs v s) =
     (if x = obs \<and> map_of (observer_objs s) obs \<noteq> None then v else obs_timeout_of x s)"
  by (auto simp: obs_timeout_of_def set_obs_timeout_def map_of_map_entry split: option.splits)

lemma throttle_inv_fire_reconcile:
  assumes inv: "throttle_inv s" and t: "map_of (timers s) h = Some t"
    and f: "timer_fn t = SafeTimeout (TReconcile obs)"
  shows "throttle_inv (run_timer_fn h (timer_fn t) (reschedule h t s))"
proof -
  from inv t f have p: "timer_period t = None" and o: "obs_timeout_of obs s = Some h"
    unfolding throttle_inv_def by (metis task_of.simps(2))+
  define s1 where "s1 = set_obs_timeout obs None
       (s\<lparr> timers := AList.delete h (timers s), timeouts := remove1 h (timeouts s) \<rparr>)"
  have tm: "timers s1 = AList.delete h (timers s)" "next_timer s1 = next_timer s"
    "next_observer s1 = next_observer s"
    by (simp_all add: s1_def set_obs_timeout_def)
  have ob: "obs_timeout_of x s1 = (if x = obs then None else obs_timeout_of x s)" for x
    using o by (auto simp: s1_def obs_timeout_of_set_obs_timeout) (auto simp: obs_timeout_of_def split: option.splits)
  have dm: "(map_of (observer_objs s1) x = None) = (map_of (observer_objs s) x = None)" for x
    by (simp add: s1_def set_obs_timeout_def map_of_map_entry_dom)
  have inv1: "throttle_inv s1"
    unfolding throttle_inv_def
  proof (intro conjI allI impI)
    show "0 < next_timer s1" using inv by (simp add: tm throttle_inv_def)
  next
    fix h' t' assume a: "map_of (timers s1) h' = Some t'"
    then have ne: "h' \<noteq> h" and old: "map_of (timers s) h' = Some t'"
      by (simp_all add: tm delete_conv' split: if_splits)
    from inv old have b: "0 < h'" "h' < next_timer s"
      and c: "\<forall>x. task_of (timer_fn t') = TReconcile x \<longrightarrow>
                    timer_fn t' = SafeTimeout (TReconcile x) \<and> timer_period t' = None
                    \<and> obs_timeout_of x s = Some h'"
      unfolding throttle_inv_def by blast+
    show "0 < h'" by (rule b)
    show "h' < next_timer s1" using b by (simp add: tm)
    fix x assume r: "task_of (timer_fn t') = TReconcile x"
    with c have d: "timer_fn t' = SafeTimeout (TReconcile x)" "timer_period t' = None"
      "obs_timeout_of x s = Some h'" by blast+
    from d(3) o ne have "x \<noteq> obs" by auto
    with d show "timer_fn t' = SafeTimeout (TReconcile x)" "timer_period t' = None"
      "obs_timeout_of x s1 = Some h'"
      by (simp_all add: ob)
  next
    fix x ob' assume "map_of (observer_objs s1) x = Some ob'"
    with dm [of x] obtain ob0 where "map_of (observer_objs s) x = Some ob0" by auto
    with inv show "x < next_observer s1"
      unfolding throttle_inv_def tm by blast
  qed
  have "run_timer_fn h (timer_fn t) (reschedule h t s)
      = snd (safeGet [''feedBlockerEnabled'', ''newsBlockerEnabled''] KReconcile 1 s1)"
    using p f by (simp add: run_timer_fn_def reschedule_def run_task_def s1_def)
  with extends_inv [OF inv1 extends_safeGet] show ?thesis by simp
qed

lemma throttle_inv_fire_timer:
  assumes "throttle_inv s"
  shows "throttle_inv (fire_timer h s)"
proof (cases "map_of (timers s) h")
  case None
  with assms show ?thesis by (simp add: fire_timer_def)
next
  case (Some t)
  show ?thesis
  proof (cases "now s < timer_due t")
    case True
    with Some assms show ?thesis by (simp add: fire_timer_def)
  next
    case False
    have "throttle_inv (run_timer_fn h (timer_fn t) (reschedule h t s))"
    proof (cases "\<exists>obs. task_of (timer_fn t) = TReconcile obs")
      case True
      then obtain obs where r: "task_of (timer_fn t) = TReconcile obs" ..
      with assms Some have "timer_fn t = SafeTimeout (TReconcile obs)"
        unfolding throttle_inv_def by blast
      from throttle_inv_fire_reconcile [OF assms Some this] show ?thesis .
    next
      case False
      then have "extends (reschedule h t s) (run_timer_fn h (timer_fn t) (reschedule h t s))"
        by (intro extends_run_timer_fn) simp
      from extends_inv [OF assms extends_trans [OF extends_reschedule [OF Some] this]]
      show ?thesis .
    qed
    with Some False show ?thesis by (simp add: fire_timer_def)
  qed
qed


lemma throttle_inv_no_pending:
  assumes "throttle_inv s" and "\<not> timeout_pending obs s"
    and "map_of (timers s) h = Some t"
  shows "task_of (timer_fn t) \<noteq> TReconcile obs"
proof
  assume "task_of (timer_fn t) = TReconcile obs"
  with assms(1,3) have "0 < h" "obs_timeout_of obs s = Some h"
    unfolding throttle_inv_def by blast+
  with assms(2) show False
    by (auto simp: timeout_pending_def obs_timeout_of_def split: option.splits)
qed

lemma observerCallback_schedules:
  assumes "isChromeAPIAvailable s" and "has_body (document s)" and "\<not> timeout_pending obs s"
  shows "observerCallback obs s =
     s\<lparr> timers := AList.update (next_timer s)
            \<lparr> timer_due = now s + 200, timer_period = None,
              timer_fn = SafeTimeout (TReconcile obs) \<rparr> (timers s),
        next_timer := Suc (next_timer s),
        timeouts := timeouts s @ [next_timer s],
        observer_objs := AList.map_entry obs (\<lambda>ob. ob\<lparr>obs_timeout := Some (next_timer s)\<rparr>)
                           (observer_objs s) \<rparr>"
  using assms
  by (simp add: observerCallback_def safeSetTimeout_def setTimeout_def set_obs_timeout_def)

lemma throttle_inv_observerCallback:
  assumes inv: "throttle_inv s" and ob: "map_of (observer_objs s) obs = Some ob"
  shows "throttle_inv (observerCallback obs s)"
proof (cases "isChromeAPIAvailable s")
  case False
  show ?thesis
  proof (cases "disconnect obs s")
    case (Inl e)
    with False inv show ?thesis by (simp add: observerCallback_def)
  next
    case (Inr s1)
    from extends_trans [OF extends_disconnect [OF Inr] extends_registry(3)]
    have "extends s (s1\<lparr> observers := remove1 obs (observers s1) \<rparr>)" .
    from extends_inv [OF inv this] False Inr show ?thesis by (simp add: observerCallback_def)
  qed
next
  case True
  show ?thesis
  proof (cases "has_body (document s) \<and> \<not> timeout_pending obs s")
    case False
    with True inv show ?thesis by (auto simp: observerCallback_def)
  next
    case sched: True
    define h where "h = next_timer s"
    define s' where "s' = observerCallback obs s"
    have eq: "timers s' = AList.update h \<lparr> timer_due = now s + 200, timer_period = None,
              timer_fn = SafeTimeout (TReconcile obs) \<rparr> (timers s)"
      "next_timer s' = Suc h" "next_observer s' = next_observer s"
      "observer_objs s' = AList.map_entry obs (\<lambda>ob. ob\<lparr>obs_timeout := Some h\<rparr>) (observer_objs s)"
      using True sched by (simp_all add: s'_def h_def observerCallback_schedules)
    have ot: "obs_timeout_of x s' = (if x = obs then Some h else obs_timeout_of x s)" for x
      using ob by (auto simp: obs_timeout_of_def eq map_of_map_entry split: option.splits)
    from inv have hpos: "0 < h" by (simp add: h_def throttle_inv_def)
    have "throttle_inv s'"
      unfolding throttle_inv_def
    proof (intro conjI allI impI)
      show "0 < next_timer s'" by (simp add: eq)
    next
      fix h' t' assume a: "map_of (timers s') h' = Some t'"
      then consider (new) "h' = h" "t' = \<lparr> timer_due = now s + 200, timer_period = None,
              timer_fn = SafeTimeout (TReconcile obs) \<rparr>"
        | (old) "h' \<noteq> h" "map_of (timers s) h' = Some t'"
        unfolding eq by (auto dest!: map_of_update_Some)
      then have "0 < h' \<and> h' < next_timer s' \<and> (\<forall>x. task_of (timer_fn t') = TReconcile x \<longrightarrow>
                    timer_fn t' = SafeTimeout (TReconcile x) \<and> timer_period t' = None
                    \<and> obs_timeout_of x s' = Some h')"
      proof cases
        case new
        with hpos show ?thesis by (simp add: eq ot)
      next
        case old
        from inv old(2) have b: "0 < h'" "h' < next_timer s"
          and c: "\<forall>x. task_of (timer_fn t') = TReconcile x \<longrightarrow>
                    timer_fn t' = SafeTimeout (TReconcile x) \<and> timer_period t' = None
                    \<and> obs_timeout_of x s = Some h'"
          unfolding throttle_inv_def by blast+
        from throttle_inv_no_pending [OF inv _ old(2)] sched
        have "task_of (timer_fn t') \<noteq> TReconcile obs" by simp
        with b c show ?thesis by (auto simp: eq ot h_def)
      qed
      then show "0 < h'" "h' < next_timer s'"
        and "\<And>x. task_of (timer_fn t') = TReconcile x \<Longrightarrow> timer_fn t' = SafeTimeout (TReconcile x)"
        and "\<And>x. task_of (timer_fn t') = TReconcile x \<Longrightarrow> timer_period t' = None"
        and "\<And>x. task_of (timer_fn t') = TReconcile x \<Longrightarrow> obs_timeout_of x s' = Some h'"
        by blast+
    next
      fix x ob' assume "map_of (observer_objs s') x = Some ob'"
      then have "map_of (observer_objs s) x \<noteq> None"
        by (simp add: eq map_of_map_entry split: option.splits if_splits)
      then obtain ob0 where "map_of (observer_objs s) x = Some ob0" by auto
      with inv show "x < next_observer s'"
        unfolding throttle_inv_def eq by blast
    qed
    then show ?thesis by (simp add: s'_def)
  qed
qed


lemma throttle_inv_setupMutationObserver:
  assumes inv: "throttle_inv s"
  shows "throttle_inv (setupMutationObserver s)"
proof -
  define obs where "obs = next_observer s"
  define s1 where "s1 = s\<lparr> observer_objs := AList.update obs
                     \<lparr> obs_connected = False, obs_timeout = None \<rparr> (observer_objs s),
                   next_observer := Suc obs \<rparr>"
  define s2 where "s2 = s1\<lparr> observers := observers s1 @ [obs] \<rparr>"
  define s3 where "s3 = startObserving obs s2"
  define s4 where "s4 = s3\<lparr> dcl_listeners := dcl_listeners s3 @ [LStartObserving obs],
                   click_listener := True \<rparr>"
  have fresh: "map_of (observer_objs s) obs = None"
  proof (rule ccontr)
    assume "map_of (observer_objs s) obs \<noteq> None"
    then obtain ob where "map_of (observer_objs s) obs = Some ob" by auto
    with inv have "obs < next_observer s" unfolding throttle_inv_def by blast
    then show False by (simp add: obs_def)
  qed
  have ot: "obs_timeout_of x s1 = obs_timeout_of x s" for x
    using fresh by (auto simp: obs_timeout_of_def s1_def update_conv')
  have inv1: "throttle_inv s1"
    unfolding throttle_inv_def
  proof (intro conjI allI impI)
    show "0 < next_timer s1" using inv by (simp add: s1_def throttle_inv_def)
  next
    fix h t assume "map_of (timers s1) h = Some t"
    then have old: "map_of (timers s) h = Some t" by (simp add: s1_def)
    from inv old have b: "0 < h" "h < next_timer s"
      and c: "\<forall>x. task_of (timer_fn t) = TReconcile x \<longrightarrow>
                    timer_fn t = SafeTimeout (TReconcile x) \<and> timer_period t = None
                    \<and> obs_timeout_of x s = Some h"
      unfolding throttle_inv_def by blast+
    show "0 < h" by (rule b)
    show "h < next_timer s1" using b by (simp add: s1_def)
    fix x assume "task_of (timer_fn t) = TReconcile x"
    with c show "timer_fn t = SafeTimeout (TReconcile x)" "timer_period t = None"
      "obs_timeout_of x s1 = Some h"
      by (simp_all add: ot)
  next
    fix x ob assume "map_of (observer_objs s1) x = Some ob"
    then have "x = obs \<or> map_of (observer_objs s) x = Some ob"
      by (auto simp: s1_def dest!: map_of_update_Some)
    moreover have "x < next_observer s" if "map_of (observer_objs s) x = Some ob"
      using inv that unfolding throttle_inv_def by blast
    ultimately show "x < next_observer s1"
      by (auto simp: s1_def obs_def)
  qed
  have 2: "extends s1 s2" unfolding s2_def by (rule extends_same) (simp add: tview_def)
  have 3: "extends s2 s3" unfolding s3_def by (rule extends_startObserving)
  have 4: "extends s3 s4" unfolding s4_def by (rule extends_same) (simp add: tview_def)
  have 5: "extends s4 (snd (safeSetInterval TVisibilityCheck 1000 s4))"
    by (rule extends_safeSetInterval) simp
  have "setupMutationObserver s = snd (safeSetInterval TVisibilityCheck 1000 s4)"
    by (simp add: setupMutationObserver_def Let_def obs_def s1_def s2_def s3_def s4_def)
  with extends_inv [OF inv1 extends_trans [OF 2 extends_trans [OF 3 extends_trans [OF 4 5]]]]
  show ?thesis by simp
qed

lemma throttle_inv_step:
  assumes inv: "throttle_inv s"
  shows "throttle_inv (step ev s)"
proof (cases ev)
  case (EvTimer h)
  with inv show ?thesis by (simp add: step_def throttle_inv_fire_timer)
next
  case (EvGetDone h err)
  with extends_inv [OF inv extends_deliver_get] show ?thesis by (simp add: step_def)
next
  case (EvSetDone h err)
  with extends_inv [OF inv extends_deliver_set] show ?thesis by (simp add: step_def)
next
  case (EvMutation obs)
  with inv show ?thesis
    by (simp add: step_def throttle_inv_observerCallback split: option.splits)
next
  case (EvMessage req ch)
  obtain r s1 where m: "onMessage req ch s = (r, s1)" by (cases "onMessage req ch s")
  with extends_onMessage [of s req ch] have 1: "extends s s1" by simp
  have 2: "extends s1 (s1\<lparr> uncaught := uncaught s1 @ [e] \<rparr>)" for e
    by (rule extends_same) (simp add: tview_def)
  from extends_inv [OF inv 1] extends_inv [OF inv extends_trans [OF 1 2]] EvMessage m
  show ?thesis by (cases r) (simp_all add: step_def)
next
  case EvClick
  with inv extends_inv [OF inv extends_clickHandler] show ?thesis by (simp add: step_def)
next
  case EvDOMContentLoaded
  have 1: "extends s (s\<lparr> readyState := Interactive, dcl_listeners := [] \<rparr>)"
    by (rule extends_same) (simp add: tview_def)
  from extends_inv [OF inv extends_trans [OF 1 extends_fold_run_dcl]] EvDOMContentLoaded
  show ?thesis by (simp add: step_def)
next
  case EvUnload
  with extends_inv [OF inv extends_cleanupResources] show ?thesis by (simp add: step_def)
next
  case EvSetupObserver
  with inv show ?thesis by (simp add: step_def throttle_inv_setupMutationObserver)
next
  case (EvHost a i)
  have "extends s (s\<lparr> api := a, invalidated := i \<rparr>)"
    by (rule extends_same) (simp add: tview_def)
  from extends_inv [OF inv this] EvHost show ?thesis by (simp add: step_def)
next
  case (EvAdvance d)
  have "extends s (s\<lparr> now := now s + d \<rparr>)"
    by (rule extends_same) (simp add: tview_def)
  from extends_inv [OF inv this] EvAdvance show ?thesis by (simp add: step_def)
next
  case (EvPage d)
  have "extends s (s\<lparr> document := d \<rparr>)"
    by (rule extends_same) (simp add: tview_def)
  from extends_inv [OF inv this] EvPage show ?thesis by (simp add: step_def)
qed

lemma throttle_inv_run: "throttle_inv s \<Longrightarrow> throttle_inv (run evs s)"
  by (induction evs arbitrary: s) (simp_all add: throttle_inv_step)

lemma throttle_inv_start: "throttle_inv (start_state a st d)"
  by (simp add: throttle_inv_def start_state_def)

lemma throttle_inv_unique:
  assumes "throttle_inv s" and "reconcile_pending obs h s" and "reconcile_pending obs h' s"
  shows "h = h'"
proof -
  from assms(2) obtain t where t: "map_of (timers s) h = Some t" "task_of (timer_fn t) = TReconcile obs"
    by (auto simp: reconcile_pending_def split: option.splits)
  from assms(3) obtain t' where t': "map_of (timers s) h' = Some t'" "task_of (timer_fn t') = TReconcile obs"
    by (auto simp: reconcile_pending_def split: option.splits)
  from assms(1) t have "obs_timeout_of obs s = Some h" unfolding throttle_inv_def by blast
  moreover from assms(1) t' have "obs_timeout_of obs s = Some h'" unfolding throttle_inv_def by blast
  ultimately show ?thesis by simp
qed


lemma observerCallback_throttled:
  "isChromeAPIAvailable s \<Longrightarrow> has_body (document s) \<Longrightarrow> timeout_pending obs s \<Longrightarrow>
   observerCallback obs s = s"
  by (simp add: observerCallback_def)

lemma burst_run:
  assumes "isChromeAPIAvailable sa" and "has_body (document sa)" and "timeout_pending obs sa"
    and "map_of (timers sa) h = Some t" and "now sa + burst_elapsed evs < timer_due t"
    and "\<forall>ev \<in> set evs. burst_event obs h ev"
  shows "run evs sa = sa\<lparr> now := now sa + burst_elapsed evs \<rparr>"
  using assms
proof (induction evs arbitrary: sa)
  case Nil
  show ?case by simp
next
  case (Cons ev evs)
  from Cons.prems(6) have ev: "burst_event obs h ev" and rest: "\<forall>ev \<in> set evs. burst_event obs h ev"
    by simp_all
  show ?case
  proof (cases ev)
    case (EvMutation x)
    with ev have x: "x = obs" by simp
    have st: "step ev sa = sa"
      using Cons.prems(1-3) EvMutation x
      by (simp add: step_def observerCallback_throttled split: option.splits)
    from Cons.prems(5) EvMutation have "now sa + burst_elapsed evs < timer_due t" by simp
    from Cons.IH [OF Cons.prems(1-4) this rest] st EvMutation show ?thesis by simp
  next
    case (EvTimer x)
    with ev have x: "x = h" by simp
    from Cons.prems(5) have "now sa < timer_due t" by simp
    with Cons.prems(4) have st: "step ev sa = sa"
      using EvTimer x by (simp add: step_def fire_timer_def)
    from Cons.prems(5) EvTimer have "now sa + burst_elapsed evs < timer_due t" by simp
    from Cons.IH [OF Cons.prems(1-4) this rest] st EvTimer show ?thesis by simp
  next
    case (EvAdvance d)
    define sb where "sb = sa\<lparr> now := now sa + d \<rparr>"
    have st: "step ev sa = sb" using EvAdvance by (simp add: step_def sb_def)
    have p: "isChromeAPIAvailable sb" "has_body (document sb)" "timeout_pending obs sb"
      "map_of (timers sb) h = Some t"
      using Cons.prems(1-4) by (simp_all add: sb_def isChromeAPIAvailable_def timeout_pending_def)
    from Cons.prems(5) EvAdvance have "now sb + burst_elapsed evs < timer_due t"
      by (simp add: sb_def)
    from Cons.IH [OF p this rest] st EvAdvance show ?thesis by (simp add: sb_def add.assoc)
  qed (use ev in simp_all)
qed


lemma fire_reconcile:
  assumes t: "map_of (timers s) h = Some \<lparr> timer_due = due, timer_period = None,
              timer_fn = SafeTimeout (TReconcile obs) \<rparr>"
    and due: "due \<le> now s" and chain: "storage_chain s = None"
  shows "fire_timer h s =
     s\<lparr> timers := AList.delete h (timers s),
        timeouts := remove1 h (timeouts s),
        observer_objs := AList.map_entry obs (\<lambda>ob. ob\<lparr>obs_timeout := None\<rparr>) (observer_objs s),
        pending_gets := AList.update (next_request s)
           ([''feedBlockerEnabled'', ''newsBlockerEnabled''], KReconcile, 1) (pending_gets s),
        next_request := Suc (next_request s) \<rparr>"
proof -
  define s1 where "s1 = set_obs_timeout obs None
       (s\<lparr> timers := AList.delete h (timers s), timeouts := remove1 h (timeouts s) \<rparr>)"
  have "api s1 = api s" "invalidated s1 = invalidated s"
    by (simp_all add: s1_def set_obs_timeout_def)
  from storage_chain_frame [OF this] chain have c: "storage_chain s1 = None" by simp
  have n: "\<not> now s < due" using due by simp
  have "fire_timer h s
      = snd (safeGet [''feedBlockerEnabled'', ''newsBlockerEnabled''] KReconcile 1 s1)"
    using t n by (simp add: fire_timer_def reschedule_def run_timer_fn_def run_task_def s1_def)
  also have "\<dots> = s1\<lparr> pending_gets := AList.update (next_request s1)
           ([''feedBlockerEnabled'', ''newsBlockerEnabled''], KReconcile, 1) (pending_gets s1),
        next_request := Suc (next_request s1) \<rparr>"
    by (simp add: safeGet_dispatch [OF c])
  finally show ?thesis
    by (simp add: s1_def set_obs_timeout_def)
qed

lemma burst_schedules_one_pass:
  assumes inv: "throttle_inv s"
    and avail: "isChromeAPIAvailable s" and ninv: "\<not> invalidated s"
    and body: "has_body (document s)" and conn: "is_connected obs s"
    and idle: "\<not> timeout_pending obs s"
    and burst: "\<forall>ev \<in> set evs. burst_event obs (next_timer s) ev"
    and window: "burst_elapsed evs < 200"
  shows "(\<forall>h. reconcile_pending obs h (run (EvMutation obs # evs) s) = (h = next_timer s))
       \<and> map_of (timers (run (EvMutation obs # evs) s)) (next_timer s)
           = Some \<lparr> timer_due = now s + 200, timer_period = None,
                    timer_fn = SafeTimeout (TReconcile obs) \<rparr>
       \<and> now (run (EvMutation obs # evs) s) = now s + burst_elapsed evs
       \<and> (\<forall>h. \<not> reconcile_pending obs h
               (run (EvMutation obs # evs @ [EvAdvance (200 - burst_elapsed evs), EvTimer (next_timer s)]) s))
       \<and> pending_gets
            (run (EvMutation obs # evs @ [EvAdvance (200 - burst_elapsed evs), EvTimer (next_timer s)]) s)
           = AList.update (next_request s)
               ([''feedBlockerEnabled'', ''newsBlockerEnabled''], KReconcile, 1) (pending_gets s)
       \<and> \<not> timeout_pending obs
            (run (EvMutation obs # evs @ [EvAdvance (200 - burst_elapsed evs), EvTimer (next_timer s)]) s)
       \<and> get_callbacks
            (run (EvMutation obs # evs @ [EvAdvance (200 - burst_elapsed evs), EvTimer (next_timer s)]) s)
           = get_callbacks s
       \<and> document
            (run (EvMutation obs # evs @ [EvAdvance (200 - burst_elapsed evs), EvTimer (next_timer s)]) s)
           = document s
       \<and> store
            (run (EvMutation obs # evs @ [EvAdvance (200 - burst_elapsed evs), EvTimer (next_timer s)]) s)
           = store s
       \<and> api
            (run (EvMutation obs # evs @ [EvAdvance (200 - burst_elapsed evs), EvTimer (next_timer s)]) s)
           = api s
       \<and> now
            (run (EvMutation obs # evs @ [EvAdvance (200 - burst_elapsed evs), EvTimer (next_timer s)]) s)
           = now s + 200
       \<and> timers
            (run (EvMutation obs # evs @ [EvAdvance (200 - burst_elapsed evs), EvTimer (next_timer s)]) s)
           = AList.delete (next_timer s) (timers (run (EvMutation obs # evs) s))"
proof -
  define h where "h = next_timer s"
  define tm where "tm = \<lparr> timer_due = now s + 200, timer_period = None,
              timer_fn = SafeTimeout (TReconcile obs) \<rparr>"
  define sa where "sa = s\<lparr> timers := AList.update h tm (timers s),
        next_timer := Suc h, timeouts := timeouts s @ [h],
        observer_objs := AList.map_entry obs (\<lambda>ob. ob\<lparr>obs_timeout := Some h\<rparr>) (observer_objs s) \<rparr>"
  define sb where "sb = sa\<lparr> now := now sa + burst_elapsed evs \<rparr>"
  define sc where "sc = sb\<lparr> now := now sb + (200 - burst_elapsed evs) \<rparr>"
  from conn obtain ob where ob: "map_of (observer_objs s) obs = Some ob" "obs_connected ob"
    by (auto simp: is_connected_def split: option.splits)
  from inv have hpos: "h \<noteq> 0" by (simp add: h_def throttle_inv_def)
  have chain: "storage_chain s = None"
    using avail ninv by (simp add: storage_chain_def isChromeAPIAvailable_def)
  have 1: "step (EvMutation obs) s = sa"
    using ob by (simp add: step_def observerCallback_schedules [OF avail body idle] sa_def h_def tm_def)
  have pa: "isChromeAPIAvailable sa" "has_body (document sa)" "timeout_pending obs sa"
    "map_of (timers sa) h = Some tm"
    using avail body ob hpos
    by (simp_all add: sa_def isChromeAPIAvailable_def timeout_pending_def map_of_map_entry update_conv')
  have "now sa + burst_elapsed evs < timer_due tm"
    using window by (simp add: sa_def tm_def)
  moreover from burst have "\<forall>ev \<in> set evs. burst_event obs h ev" by (simp add: h_def)
  ultimately have 2: "run evs sa = sb"
    unfolding sb_def by (intro burst_run [OF pa])
  have r1: "run (EvMutation obs # evs) s = sb"
    using 1 2 by simp
  have old: "task_of (timer_fn t') \<noteq> TReconcile obs" if "map_of (timers s) x = Some t'" for x t'
    by (rule throttle_inv_no_pending [OF inv idle that])
  have tb: "map_of (timers sb) x = (if x = h then Some tm else map_of (timers s) x)" for x
    by (simp add: sb_def sa_def update_conv')
  have c1: "reconcile_pending obs x sb = (x = h)" for x
    using old [of x] by (auto simp: reconcile_pending_def tb tm_def split: option.splits)
  have c2: "map_of (timers sb) h = Some tm" by (simp add: tb)
  have c3: "now sb = now s + burst_elapsed evs" by (simp add: sb_def sa_def)
  have 3: "step (EvAdvance (200 - burst_elapsed evs)) sb = sc"
    by (simp add: step_def sc_def)
  have tc: "map_of (timers sc) h = Some \<lparr> timer_due = now s + 200, timer_period = None,
              timer_fn = SafeTimeout (TReconcile obs) \<rparr>"
    using c2 by (simp add: sc_def tm_def)
  have nc: "now s + 200 \<le> now sc"
    using window by (simp add: sc_def c3)
  have "api sc = api s" "invalidated sc = invalidated s"
    by (simp_all add: sc_def sb_def sa_def)
  from storage_chain_frame [OF this] chain have cc: "storage_chain sc = None" by simp
  define sd where "sd = fire_timer h sc"
  have 4: "step (EvTimer h) sc = sd" by (simp add: step_def sd_def)
  have sd: "timers sd = AList.delete h (timers sc)"
    "pending_gets sd = AList.update (next_request sc)
           ([''feedBlockerEnabled'', ''newsBlockerEnabled''], KReconcile, 1) (pending_gets sc)"
    "observer_objs sd = AList.map_entry obs (\<lambda>ob. ob\<lparr>obs_timeout := None\<rparr>) (observer_objs sc)"
    "get_callbacks sd = get_callbacks sc" "document sd = document sc" "store sd = store sc"
    "api sd = api sc" "now sd = now sc"
    unfolding sd_def fire_reconcile [OF tc nc cc] by simp_all
  have r2: "run (EvMutation obs # evs @ [EvAdvance (200 - burst_elapsed evs), EvTimer (next_timer s)]) s = sd"
    using 1 2 3 4 by (simp add: run_append h_def)
  have td: "map_of (timers sd) x = (if x = h then None else map_of (timers s) x)" for x
    by (simp add: sd sc_def sb_def sa_def delete_conv' update_conv')
  have c4: "\<not> reconcile_pending obs x sd" for x
    using old [of x] by (auto simp: reconcile_pending_def td split: option.splits)
  have c5: "pending_gets sd = AList.update (next_request s)
               ([''feedBlockerEnabled'', ''newsBlockerEnabled''], KReconcile, 1) (pending_gets s)"
    by (simp add: sd sc_def sb_def sa_def)
  have c6: "\<not> timeout_pending obs sd"
    using ob by (simp add: timeout_pending_def sd sc_def sb_def sa_def map_of_map_entry)
  have c7: "get_callbacks sd = get_callbacks s" "document sd = document s" "store sd = store s"
    "api sd = api s"
    by (simp_all add: sd sc_def sb_def sa_def)
  have c8: "now sd = now s + 200"
    using window by (simp add: sd sc_def sb_def sa_def)
  have c9: "timers sd = AList.delete h (timers sb)"
    by (simp add: sd sc_def)
  show ?thesis
    unfolding r1 r2 using c1 c2 c3 c4 c5 c6 c7 c8 c9 by (simp add: h_def tm_def)
qed

lemma hide_news_element_eq:
  "hide_news_element el =
     el\<lparr> display := ''none'', visibility := ''hidden'', opacity := ''0'',
         attributes := AList.update hidden_marker ''true'' (attributes el) \<rparr>"
  by (simp add: hide_news_element_def safeManipulateElement_def no_actions_def setAttribute_def)

lemma has_body_map: "(\<And>x. isBody (g x) = isBody x) \<Longrightarrow> has_body (map g xs) = has_body xs"
  by (auto simp: has_body_def)

lemma has_body_update_first:
  "(\<And>x. isBody (f x) = isBody x) \<Longrightarrow> has_body (update_first P f xs) = has_body xs"
  unfolding has_body_def by (rule set_update_first_pred)

lemma has_body_reconcile_news: "has_body (reconcile_news d) = has_body d"
proof (cases "has_body d")
  case False
  then show ?thesis by (simp add: reconcile_news_def)
next
  case True
  have "has_body (map (\<lambda>el. if matchesNews el \<and> \<not> hasAttribute hidden_marker el
                      then hide_news_element el else el)
             (update_first isBody (classList_add ''news-blocker-active'') d)) = has_body d"
    by (simp add: has_body_map has_body_update_first hide_news_element_eq classList_add_def)
  with True show ?thesis by (simp add: reconcile_news_def on_body_def)
qed

lemma reconcile_marks_feed:
  assumes "has_body d" and "el \<in> set (reconcile result d)" and "matchesFeed el"
  shows "hasAttribute hidden_marker el = truthy (prefOrDefault result ''feedBlockerEnabled'')"
proof -
  define b where "b = truthy (prefOrDefault result ''feedBlockerEnabled'')"
  define d1 where "d1 = (if truthy (prefOrDefault result ''newsBlockerEnabled'')
                          then reconcile_news d else d)"
  have body: "has_body d1"
    using assms(1) by (simp add: d1_def has_body_reconcile_news)
  have r: "reconcile result d = reconcile_feed b d1"
    by (simp add: reconcile_def Let_def b_def d1_def)
  have q: "matchesFeed (reconcile_rule b x) \<longrightarrow> hasAttribute hidden_marker (reconcile_rule b x) = b" for x
    by (cases b) (simp_all add: reconcile_rule_def)
  from assms(2) body have
    "el \<in> set (update_first (\<lambda>el. el_id el = ''feed-replacement'')
             (set_display (if b then ''flex'' else ''none''))
             (map (reconcile_rule b) (update_first isBody (body_feed_classes b) d1)))"
    by (simp add: r reconcile_feed_alt)
  from set_update_first_map [OF this] obtain x where "el = reconcile_rule b x
      \<or> el = set_display (if b then ''flex'' else ''none'') (reconcile_rule b x)"
    by blast
  with assms(3) q [of x] show ?thesis
    by (auto simp: b_def)
qed

lemma reconcile_read_completes:
  assumes "map_of (pending_gets s) r = Some (keys, KReconcile, n)" and "runtime_chain s = None"
  shows "deliver_get r None s =
     s\<lparr> pending_gets := AList.delete r (pending_gets s),
        get_callbacks := get_callbacks s @ [(KReconcile, storage_read keys (store s))],
        document := reconcile (storage_read keys (store s)) (document s) \<rparr>"
proof -
  have c: "runtime_chain (s\<lparr> pending_gets := AList.delete r (pending_gets s) \<rparr>) = None"
    using assms(2) runtime_chain_frame [of "s\<lparr> pending_gets := AList.delete r (pending_gets s) \<rparr>" s]
    by simp
  show ?thesis
    using assms(1) c
    by (simp add: deliver_get_def get_completion_def call_get_cont_def to_event_loop_def)
qed

lemma burst_pass_executes:
  assumes inv: "throttle_inv s"
    and avail: "isChromeAPIAvailable s" and ninv: "\<not> invalidated s"
    and body: "has_body (document s)" and conn: "is_connected obs s"
    and idle: "\<not> timeout_pending obs s"
    and burst: "\<forall>ev \<in> set evs. burst_event obs (next_timer s) ev"
    and window: "burst_elapsed evs < 200"
  shows "get_callbacks
            (run (EvMutation obs # evs @ [EvAdvance (200 - burst_elapsed evs), EvTimer (next_timer s),
                    EvGetDone (next_request s) None]) s)
           = get_callbacks s @ [(KReconcile,
               storage_read [''feedBlockerEnabled'', ''newsBlockerEnabled''] (store s))]
       \<and> document
            (run (EvMutation obs # evs @ [EvAdvance (200 - burst_elapsed evs), EvTimer (next_timer s),
                    EvGetDone (next_request s) None]) s)
           = reconcile (storage_read [''feedBlockerEnabled'', ''newsBlockerEnabled''] (store s))
               (document s)
       \<and> now
            (run (EvMutation obs # evs @ [EvAdvance (200 - burst_elapsed evs), EvTimer (next_timer s),
                    EvGetDone (next_request s) None]) s)
           = now s + 200
       \<and> (\<forall>h. \<not> reconcile_pending obs h
            (run (EvMutation obs # evs @ [EvAdvance (200 - burst_elapsed evs), EvTimer (next_timer s),
                    EvGetDone (next_request s) None]) s))"
proof -
  define sd where "sd = run (EvMutation obs # evs @
      [EvAdvance (200 - burst_elapsed evs), EvTimer (next_timer s)]) s"
  note b = burst_schedules_one_pass [OF assms, folded sd_def]
  from b have p: "map_of (pending_gets sd) (next_request s)
      = Some ([''feedBlockerEnabled'', ''newsBlockerEnabled''], KReconcile, 1)"
    by (simp add: update_conv')
  from b have a: "api sd = api s" by simp
  have "runtime_chain s = None"
    using avail by (simp add: runtime_chain_def isChromeAPIAvailable_def)
  with runtime_chain_frame [OF a] have rc: "runtime_chain sd = None" by simp
  have "run (EvMutation obs # evs @ [EvAdvance (200 - burst_elapsed evs), EvTimer (next_timer s),
                    EvGetDone (next_request s) None]) s
      = deliver_get (next_request s) None sd"
    using run_append [of "EvMutation obs # evs @ [EvAdvance (200 - burst_elapsed evs), EvTimer (next_timer s)]"
             "[EvGetDone (next_request s) None]" s]
    by (simp add: sd_def step_def)
  also note reconcile_read_completes [OF p rc]
  finally have e: "run (EvMutation obs # evs @ [EvAdvance (200 - burst_elapsed evs), EvTimer (next_timer s),
                    EvGetDone (next_request s) None]) s
      = sd\<lparr> pending_gets := AList.delete (next_request s) (pending_gets sd),
        get_callbacks := get_callbacks sd @ [(KReconcile,
           storage_read [''feedBlockerEnabled'', ''newsBlockerEnabled''] (store sd))],
        document := reconcile (storage_read [''feedBlockerEnabled'', ''newsBlockerEnabled''] (store sd))
           (document sd) \<rparr>" .
  from b have np: "\<not> reconcile_pending obs x sd" for x by blast
  show ?thesis
    unfolding e using b np by (simp add: reconcile_pending_def)
qed

text \<open>
  C8. In every state the script can reach from its start, an observer has at most one
  pending reconciliation timer. And from any such state in which the runtime is
  available, the document has a body, and the observer is connected with no reconciliation
  pending: a first notification followed by any burst of further notifications within
  less than 200 ms (time passing and the host trying the timer early included) leaves
  exactly one reconciliation timer, the one the first notification created, due 200 ms
  after it. When those 200 ms are over it fires once, dispatches the one read of the
  pass, and leaves no reconciliation timer and the throttle flag cleared; up to then no
  reconciliation callback has run and the document is untouched. When the host completes
  that read, at the clock value of 200 ms after the first notification, the pass
  executes, and it is the only one: the reconciliation callback has been called exactly
  once, with the stored preferences; the document is the one the pass computes from
  them; and every feed element carries the hidden marker if and only if feed blocking is
  on.
\<close>

theorem observer_throttle:
  "(\<forall>h h'. reconcile_pending obs h (run evs0 (start_state a st d))
            \<and> reconcile_pending obs h' (run evs0 (start_state a st d)) \<longrightarrow> h = h')
   \<and> (let s = run evs0 (start_state a st d);
           after_burst = run (EvMutation obs # evs) s;
           after_window = run (EvMutation obs # evs @
                            [EvAdvance (200 - burst_elapsed evs), EvTimer (next_timer s)]) s;
           after_pass = run (EvMutation obs # evs @
                            [EvAdvance (200 - burst_elapsed evs), EvTimer (next_timer s),
                             EvGetDone (next_request s) None]) s;
           result = storage_read [''feedBlockerEnabled'', ''newsBlockerEnabled''] (store s)
       in isChromeAPIAvailable s \<and> \<not> invalidated s \<and> has_body (document s)
          \<and> is_connected obs s \<and> \<not> timeout_pending obs s
          \<and> (\<forall>ev \<in> set evs. burst_event obs (next_timer s) ev) \<and> burst_elapsed evs < 200
          \<longrightarrow> (\<forall>h. reconcile_pending obs h after_burst = (h = next_timer s))
              \<and> map_of (timers after_burst) (next_timer s)
                  = Some \<lparr> timer_due = now s + 200, timer_period = None,
                           timer_fn = SafeTimeout (TReconcile obs) \<rparr>
              \<and> now after_burst = now s + burst_elapsed evs
              \<and> (\<forall>h. \<not> reconcile_pending obs h after_window)
              \<and> pending_gets after_window
                  = AList.update (next_request s)
                      ([''feedBlockerEnabled'', ''newsBlockerEnabled''], KReconcile, 1)
                      (pending_gets s)
              \<and> \<not> timeout_pending obs after_window
              \<and> get_callbacks after_window = get_callbacks s
              \<and> document after_window = document s
              \<and> get_callbacks after_pass = get_callbacks s @ [(KReconcile, result)]
              \<and> document after_pass = reconcile result (document s)
              \<and> now after_pass = now s + 200
              \<and> (\<forall>h. \<not> reconcile_pending obs h after_pass)
              \<and> (\<forall>el \<in> set (document after_pass). matchesFeed el \<longrightarrow>
                    hasAttribute hidden_marker el
                      = truthy (prefOrDefault result ''feedBlockerEnabled'')))"
proof -
  define s where "s = run evs0 (start_state a st d)"
  have inv: "throttle_inv s"
    unfolding s_def by (rule throttle_inv_run [OF throttle_inv_start])
  have one: "\<forall>h h'. reconcile_pending obs h s \<and> reconcile_pending obs h' s \<longrightarrow> h = h'"
    using throttle_inv_unique [OF inv] by blast
  have two: ?thesis if h: "isChromeAPIAvailable s" "\<not> invalidated s" "has_body (document s)"
      "is_connected obs s" "\<not> timeout_pending obs s"
      "\<forall>ev \<in> set evs. burst_event obs (next_timer s) ev" "burst_elapsed evs < 200"
  proof -
    note b = burst_schedules_one_pass [OF inv h] and p = burst_pass_executes [OF inv h]
    from p have doc: "document (run (EvMutation obs # evs @
                            [EvAdvance (200 - burst_elapsed evs), EvTimer (next_timer s),
                             EvGetDone (next_request s) None]) s)
        = reconcile (storage_read [''feedBlockerEnabled'', ''newsBlockerEnabled''] (store s))
            (document s)"
      by blast
    have m: "\<forall>el \<in> set (document (run (EvMutation obs # evs @
                            [EvAdvance (200 - burst_elapsed evs), EvTimer (next_timer s),
                             EvGetDone (next_request s) None]) s)). matchesFeed el \<longrightarrow>
                    hasAttribute hidden_marker el
                      = truthy (prefOrDefault
                          (storage_read [''feedBlockerEnabled'', ''newsBlockerEnabled''] (store s))
                          ''feedBlockerEnabled'')"
      unfolding doc using reconcile_marks_feed [OF h(3)] by blast
    show ?thesis
      unfolding Let_def s_def [symmetric] using one b p m by blast
  qed
  show ?thesis
  proof (cases "isChromeAPIAvailable s \<and> \<not> invalidated s \<and> has_body (document s)
          \<and> is_connected obs s \<and> \<not> timeout_pending obs s
          \<and> (\<forall>ev \<in> set evs. burst_event obs (next_timer s) ev) \<and> burst_elapsed evs < 200")
    case True
    then show ?thesis using two by blast
  next
    case False
    then show ?thesis
      unfolding Let_def s_def [symmetric] using one by blast
  qed
qed

lemma observing_state_eq:
  "run [EvSetupObserver] empty_store_state = empty_store_state\<lparr>
      observers := [0], intervals := [1], next_timer := 2,
      timers := [(1, \<lparr> timer_due = 1000, timer_period = Some 1000,
                        timer_fn = SafeInterval TVisibilityCheck \<rparr>)],
      next_observer := 1,
      observer_objs := [(0, \<lparr> obs_connected = True, obs_timeout = None \<rparr>)],
      dcl_listeners := [LStartObserving 0], click_listener := True \<rparr>"
  by (simp add: step_def setupMutationObserver_def
      safeSetInterval_def setInterval_def startObserving_def has_body_def sample_defs Let_def)

lemma burst_elapsed_append: "burst_elapsed (xs @ ys) = burst_elapsed xs + burst_elapsed ys"
  by (induction xs rule: burst_elapsed.induct) simp_all

lemma burst_elapsed_mutations: "burst_elapsed (replicate n (EvMutation x)) = 0"
  by (induction n) simp_all

lemma reconcile_sample:
  "reconcile [] [sample_body, sample_feed]
     = [sample_body\<lparr> classList := [''news-blocker-active'', ''feed-blocker-active''] \<rparr>,
        sample_feed\<lparr> display := ''none'',
                     attributes := [(''data-hidden-by-focus-mode'', ''true'')] \<rparr>]"
  by (simp add: reconcile_def prefOrDefault_def getProp_def reconcile_news_def on_body_def
      classList_add_def has_body_def reconcile_feed_alt reconcile_rule_def el_eqs hidden_marker_def
      sample_body_def sample_feed_def)

theorem observer_throttle_witness:
  "reconcile_pending 0 2
     (run (EvMutation 0 # replicate 49 (EvMutation 0) @ [EvAdvance 50])
        (run [EvSetupObserver] empty_store_state))
   \<and> \<not> reconcile_pending 0 1
     (run (EvMutation 0 # replicate 49 (EvMutation 0) @ [EvAdvance 50])
        (run [EvSetupObserver] empty_store_state))
   \<and> map_of (timers
       (run (EvMutation 0 # replicate 49 (EvMutation 0) @ [EvAdvance 50])
          (run [EvSetupObserver] empty_store_state))) 2
      = Some \<lparr> timer_due = 200, timer_period = None, timer_fn = SafeTimeout (TReconcile 0) \<rparr>
   \<and> now (run (EvMutation 0 # replicate 49 (EvMutation 0) @ [EvAdvance 50])
          (run [EvSetupObserver] empty_store_state))
      = 50
   \<and> \<not> reconcile_pending 0 2
     (run (EvMutation 0 # (replicate 49 (EvMutation 0) @ [EvAdvance 50]) @ [EvAdvance 150, EvTimer 2])
        (run [EvSetupObserver] empty_store_state))
   \<and> pending_gets
     (run (EvMutation 0 # (replicate 49 (EvMutation 0) @ [EvAdvance 50]) @ [EvAdvance 150, EvTimer 2])
        (run [EvSetupObserver] empty_store_state))
      = [(0, [''feedBlockerEnabled'', ''newsBlockerEnabled''], KReconcile, 1)]
   \<and> document
     (run (EvMutation 0 # (replicate 49 (EvMutation 0) @ [EvAdvance 50]) @ [EvAdvance 150, EvTimer 2])
        (run [EvSetupObserver] empty_store_state))
      = [sample_body, sample_feed]
   \<and> get_callbacks
     (run (EvMutation 0 # (replicate 49 (EvMutation 0) @ [EvAdvance 50])
             @ [EvAdvance 150, EvTimer 2, EvGetDone 0 None])
        (run [EvSetupObserver] empty_store_state))
      = [(KReconcile, [])]
   \<and> document
     (run (EvMutation 0 # (replicate 49 (EvMutation 0) @ [EvAdvance 50])
             @ [EvAdvance 150, EvTimer 2, EvGetDone 0 None])
        (run [EvSetupObserver] empty_store_state))
      = [sample_body\<lparr> classList := [''news-blocker-active'', ''feed-blocker-active''] \<rparr>,
         sample_feed\<lparr> display := ''none'',
                      attributes := [(''data-hidden-by-focus-mode'', ''true'')] \<rparr>]
   \<and> now
     (run (EvMutation 0 # (replicate 49 (EvMutation 0) @ [EvAdvance 50])
             @ [EvAdvance 150, EvTimer 2, EvGetDone 0 None])
        (run [EvSetupObserver] empty_store_state))
      = 200"
proof -
  define s where "s = run [EvSetupObserver] empty_store_state"
  define evs where "evs = replicate 49 (EvMutation 0) @ [EvAdvance 50]"
  have h: "isChromeAPIAvailable s" "\<not> invalidated s" "has_body (document s)"
    "is_connected 0 s" "\<not> timeout_pending 0 s"
    unfolding s_def observing_state_eq
    by (simp_all add: isChromeAPIAvailable_def has_body_def is_connected_def timeout_pending_def
        sample_defs)
  have c: "next_timer s = 2" "now s = 0" "next_request s = 0" "pending_gets s = []"
    "get_callbacks s = []" "store s = []" "document s = [sample_body, sample_feed]"
    unfolding s_def observing_state_eq by (simp_all add: empty_store_state_def start_state_def)
  have b: "\<forall>ev \<in> set evs. burst_event 0 (next_timer s) ev"
    by (simp add: evs_def c)
  have e: "burst_elapsed evs = 50"
    by (simp add: evs_def burst_elapsed_append burst_elapsed_mutations)
  have "(\<forall>h. reconcile_pending 0 h (run (EvMutation 0 # evs) s) = (h = 2))
      \<and> map_of (timers (run (EvMutation 0 # evs) s)) 2
          = Some \<lparr> timer_due = 200, timer_period = None, timer_fn = SafeTimeout (TReconcile 0) \<rparr>
      \<and> now (run (EvMutation 0 # evs) s) = 50
      \<and> (\<forall>h. \<not> reconcile_pending 0 h (run (EvMutation 0 # evs @ [EvAdvance 150, EvTimer 2]) s))
      \<and> pending_gets (run (EvMutation 0 # evs @ [EvAdvance 150, EvTimer 2]) s)
          = [(0, [''feedBlockerEnabled'', ''newsBlockerEnabled''], KReconcile, 1)]
      \<and> document (run (EvMutation 0 # evs @ [EvAdvance 150, EvTimer 2]) s)
          = [sample_body, sample_feed]
      \<and> get_callbacks (run (EvMutation 0 # evs @ [EvAdvance 150, EvTimer 2, EvGetDone 0 None]) s)
          = [(KReconcile, [])]
      \<and> document (run (EvMutation 0 # evs @ [EvAdvance 150, EvTimer 2, EvGetDone 0 None]) s)
          = reconcile [] [sample_body, sample_feed]
      \<and> now (run (EvMutation 0 # evs @ [EvAdvance 150, EvTimer 2, EvGetDone 0 None]) s) = 200"
    using observer_throttle [of 0 "[EvSetupObserver]" available_api "[]"
             "[sample_body, sample_feed]" evs]
          h b e c
    unfolding Let_def s_def [symmetric] empty_store_state_def [symmetric]
    by simp
  then show ?thesis
    unfolding s_def evs_def reconcile_sample by simp
qed

end
